theory Spec2Isabelle
  imports Complex_Main
begin

section \<open>Booking.com price calendar: a model of content.js\<close>

text \<open>
  The development follows the first copy of \<^verbatim>\<open>content.js\<close> (lines 1 to 2458).

  Conventions of the model.
  \<^item> A JavaScript number is a rational: arithmetic is exact, and \<^verbatim>\<open>NaN\<close> and
    \<^verbatim>\<open>undefined\<close> are \<open>None\<close> of an option type where the code can produce them.
  \<^item> A JavaScript string is a \<open>string\<close> of ASCII characters.
  \<^item> An ISO date \<^verbatim>\<open>YYYY-MM-DD\<close> is the number of its day, an \<open>int\<close>: the dates are
    valid, \<^verbatim>\<open>addDays\<close> adds and \<^verbatim>\<open>daysBetween\<close> subtracts. The cache key
    \<^verbatim>\<open>`${checkin}/${checkout}`\<close> is the pair of the two dates.
  \<^item> The script runs one callback at a time. Each callback is a function on the state of
    the script; the requests, timers and promises that are pending are part of the state,
    and an event says which of them completes next. Timers fire in any order.
\<close>

subsection \<open>esc\<close>

text \<open>
  The argument of \<^verbatim>\<open>esc\<close> is any JavaScript value. A value that is not a string is
  given by the two things \<^verbatim>\<open>esc\<close> reads of it: its truthiness and its
  \<^verbatim>\<open>String(...)\<close> rendering.
\<close>

datatype js_value = JStr string | JOther bool string

fun truthy :: "js_value \<Rightarrow> bool" where
  "truthy (JStr s) = (s \<noteq> [])"
| "truthy (JOther b r) = b"

fun String_of :: "js_value \<Rightarrow> string" where
  "String_of (JStr s) = s"
| "String_of (JOther b r) = r"

text \<open>\<^verbatim>\<open>s.replace(/c/g, r)\<close> for a pattern of one literal character.\<close>

definition replace_all :: "char \<Rightarrow> string \<Rightarrow> string \<Rightarrow> string" where
  "replace_all c r s = concat (map (\<lambda>x. if x = c then r else [x]) s)"

definition esc :: "js_value \<Rightarrow> string" where
  "esc str =
     (if \<not> truthy str then []
      else replace_all (CHR 0x22) ''&quot;''
             (replace_all CHR ''>'' ''&gt;''
               (replace_all CHR ''<'' ''&lt;''
                 (replace_all CHR ''&'' ''&amp;'' (String_of str)))))"

text \<open>The entity that stands for one character of the input.\<close>

definition html_entity :: "char \<Rightarrow> string" where
  "html_entity c =
     (if c = CHR ''&'' then ''&amp;''
      else if c = CHR ''<'' then ''&lt;''
      else if c = CHR ''>'' then ''&gt;''
      else if c = CHR 0x22 then ''&quot;''
      else [c])"

subsection \<open>calcStats\<close>

record stats =
  stats_min :: "rat option"
  stats_max :: "rat option"
  stats_avg :: "int option"
  stats_count :: nat

text \<open>\<^verbatim>\<open>Math.round\<close> rounds to the nearest integer, a tie towards plus infinity.\<close>

definition Math_round :: "rat \<Rightarrow> int" where
  "Math_round x = \<lfloor>x + 1 / 2\<rfloor>"

text \<open>
  On the empty list the code reads \<^verbatim>\<open>sorted[0]\<close> (undefined) and rounds
  \<^verbatim>\<open>0 / 0\<close> (NaN): these are the \<open>None\<close> fields.
\<close>

definition calcStats :: "rat list \<Rightarrow> stats" where
  "calcStats prices =
     (let sorted = sort prices;
          sum = foldl (\<lambda>acc v. acc + v) 0 sorted
      in \<lparr> stats_min = (if sorted = [] then None else Some (sorted ! 0)),
           stats_max = (if sorted = [] then None else Some (sorted ! (length sorted - 1))),
           stats_avg = (if sorted = [] then None
                        else Some (Math_round (sum / of_nat (length sorted)))),
           stats_count = length sorted \<rparr>)"

subsection \<open>parsePrice\<close>

text \<open>
  The regular expressions of \<^verbatim>\<open>parsePrice\<close>, on ASCII text: \<^verbatim>\<open>\s\<close> is a white-space
  character, \<^verbatim>\<open>\d\<close> a decimal digit.
\<close>

definition is_space :: "char \<Rightarrow> bool" where
  "is_space c = (c \<in> {CHR 0x09, CHR 0x0A, CHR 0x0B, CHR 0x0C, CHR 0x0D, CHR '' ''})"

definition is_digit :: "char \<Rightarrow> bool" where
  "is_digit c = (c \<in> set ''0123456789'')"



definition is_price_char :: "char \<Rightarrow> bool" where
  "is_price_char c = (is_digit c \<or> c = CHR '','' \<or> c = CHR ''.'')"






subsection \<open>Dates, cache keys and the runtime state\<close>

type_synonym date = int

type_synonym cache_key = "date \<times> date"

definition cacheKey :: "date \<Rightarrow> date \<Rightarrow> cache_key" where
  "cacheKey checkin checkout = (checkin, checkout)"

definition addDays :: "date \<Rightarrow> int \<Rightarrow> date" where
  "addDays dateStr n = dateStr + n"

definition daysBetween :: "date \<Rightarrow> date \<Rightarrow> int" where
  "daysBetween a b = b - a"

definition FETCH_DELAY_MS :: nat where
  "FETCH_DELAY_MS = 900"

definition MAX_CONCURRENT :: int where
  "MAX_CONCURRENT = 2"

definition SCRAPE_DELAY_MS :: nat where
  "SCRAPE_DELAY_MS = 3000"

text \<open>
  Of the search parameters only the dates and the number of nights are read by the
  functions modelled here; the others go into the URLs of the requests.
\<close>

record search_params =
  sp_checkin :: date
  sp_checkout :: date
  sp_nights :: int

text \<open>
  A value of the price cache: \<^verbatim>\<open>{ loading: true }\<close>, \<^verbatim>\<open>null\<close> (fetched but empty) or a
  statistics object. A key the map does not have is \<open>None\<close>.
\<close>

datatype cache_entry = Loading | Empty | Stats stats

record job =
  job_key :: cache_key
  job_checkin :: date
  job_checkout :: date

text \<open>The object literal \<^verbatim>\<open>{ key, checkin, checkout }\<close> pushed to the queue.\<close>

definition mk_job :: "date \<Rightarrow> date \<Rightarrow> job" where
  "mk_job checkin checkout =
     \<lparr> job_key = cacheKey checkin checkout, job_checkin = checkin, job_checkout = checkout \<rparr>"

text \<open>
  What a pending timer will do: resume a \<^verbatim>\<open>drain\<close> that awaits \<^verbatim>\<open>sleep(180)\<close>, call
  \<^verbatim>\<open>drain\<close> (set by the \<^verbatim>\<open>finally\<close> handler), put a rate-limited job back (set by
  \<^verbatim>\<open>doFetch\<close>), or run \<^verbatim>\<open>scrapeCurrentPage\<close>.
\<close>

datatype timer_action = DrainResume | DrainCall | Retry job | Scrape

text \<open>
  The variables of the script, and the asynchronous work that is pending: the jobs whose
  \<^verbatim>\<open>doFetch\<close> awaits its response, the timers with their delays in milliseconds, and the
  \<^verbatim>\<open>fetchHomepagePrice\<close> promises with the check-in snapshot and key of their handler.
\<close>

record state =
  searchParams :: "search_params option"
  selectedCheckin :: "date option"
  priceCache :: "cache_key \<rightharpoonup> cache_entry"
  fetchQueue :: "job list"
  activeFetches :: int
  inflight :: "job list"
  timers :: "(nat \<times> timer_action) list"
  homepage :: "(date \<times> cache_key) list"

definition init :: "search_params option \<Rightarrow> state" where
  "init sp =
     \<lparr> searchParams = sp, selectedCheckin = None, priceCache = Map.empty, fetchQueue = [],
       activeFetches = 0, inflight = [],
       timers = (if sp \<noteq> None then [(SCRAPE_DELAY_MS, Scrape)] else []),
       homepage = [] \<rparr>"

subsection \<open>The fetch queue\<close>

text \<open>
  The guarded push that \<^verbatim>\<open>handleDateClick\<close> and \<^verbatim>\<open>queueFetchesForCells\<close> (twice) write out:
  \<^verbatim>\<open>if (!priceCache.has(key) && !fetchQueue.find(j => j.key === key)) fetchQueue.push(...)\<close>.
\<close>

definition enqueue :: "job \<Rightarrow> state \<Rightarrow> state" where
  "enqueue j s =
     (if priceCache s (job_key j) = None \<and> find (\<lambda>i. job_key i = job_key j) (fetchQueue s) = None
      then s\<lparr>fetchQueue := fetchQueue s @ [j]\<rparr> else s)"

text \<open>
  The loop \<^verbatim>\<open>for (let i = 1; i <= 10; i++)\<close> over the next ten check-out dates, which
  \<^verbatim>\<open>handleDateClick\<close> and \<^verbatim>\<open>queueFetchesForCells\<close> both run with the guarded push.
\<close>

definition enqueue_checkouts :: "date \<Rightarrow> state \<Rightarrow> state" where
  "enqueue_checkouts checkin s =
     foldl (\<lambda>s i. enqueue (mk_job checkin (addDays checkin i)) s) s [1..10]"

text \<open>
  The \<^verbatim>\<open>finally\<close> handler that \<^verbatim>\<open>drain\<close> attaches to every \<^verbatim>\<open>doFetch\<close>.
\<close>

definition fetch_finally :: "state \<Rightarrow> state" where
  "fetch_finally s =
     (let s1 = s\<lparr>activeFetches := activeFetches s - 1\<rparr>
      in if fetchQueue s1 \<noteq> [] then s1\<lparr>timers := timers s1 @ [(FETCH_DELAY_MS, DrainCall)]\<rparr>
         else s1)"

text \<open>
  The call \<^verbatim>\<open>doFetch(item)\<close> up to its first \<^verbatim>\<open>await\<close>. \<^verbatim>\<open>buildSearchUrl\<close> reads
  \<^verbatim>\<open>searchParams.dest\<close> outside the \<^verbatim>\<open>try\<close>: without search parameters the promise is
  rejected at once and only the \<^verbatim>\<open>finally\<close> handler runs; otherwise the request is sent.
  (The handler runs as a microtask, once \<^verbatim>\<open>drain\<close> has reached its \<^verbatim>\<open>await\<close> or its
  end; \<^verbatim>\<open>drain\<close> changes nothing that the handler reads in between, so the model runs
  it at once.)
\<close>

definition doFetch_start :: "job \<Rightarrow> state \<Rightarrow> state" where
  "doFetch_start item s =
     (if searchParams s = None then fetch_finally s
      else s\<lparr>inflight := inflight s @ [item]\<rparr>)"

text \<open>
  One run of \<^verbatim>\<open>drain\<close> from its start, or from the \<^verbatim>\<open>await sleep(180)\<close> where an earlier
  run waits, to the next \<^verbatim>\<open>await\<close> or to the end of the loop. After a dispatch the loop
  waits when the queue is not empty, and ends when it is.
\<close>

function drain :: "state \<Rightarrow> state" where
  "drain s =
     (if fetchQueue s \<noteq> [] \<and> activeFetches s < MAX_CONCURRENT then
        (let item = hd (fetchQueue s);
             s1 = s\<lparr>fetchQueue := tl (fetchQueue s)\<rparr>
         in if priceCache s1 (job_key item) \<noteq> None then drain s1
            else (let s2 = doFetch_start item (s1\<lparr>activeFetches := activeFetches s1 + 1\<rparr>)
                  in if fetchQueue s2 \<noteq> [] then s2\<lparr>timers := timers s2 @ [(180, DrainResume)]\<rparr>
                     else s2))
      else s)"
  by pat_completeness auto
termination
  by (relation "measure (\<lambda>s. length (fetchQueue s))") auto

definition queueFetchesForCells :: "date option list \<Rightarrow> state \<Rightarrow> state" where
  "queueFetchesForCells cells s =
     (case searchParams s of
        None \<Rightarrow> s
      | Some sp \<Rightarrow>
          (let s1 = foldl (\<lambda>s cell. case cell of
                                      None \<Rightarrow> s
                                    | Some date \<Rightarrow> enqueue (mk_job date (addDays date (sp_nights sp))) s)
                     s cells;
               s2 = (case selectedCheckin s1 of
                       None \<Rightarrow> s1
                     | Some sc \<Rightarrow> enqueue_checkouts sc s1)
           in drain s2))"

text \<open>
  A response to \<^verbatim>\<open>fetch\<close>: a status with what reading the body and extracting the prices
  gives (\<open>None\<close> when that throws), or a rejected request.
\<close>

datatype response = Response nat "rat list option" | TransportError

definition res_ok :: "nat \<Rightarrow> bool" where
  "res_ok status = (200 \<le> status \<and> status \<le> 299)"

definition cache_set :: "cache_key \<Rightarrow> cache_entry \<Rightarrow> state \<Rightarrow> state" where
  "cache_set k v s = s\<lparr>priceCache := (priceCache s)(k \<mapsto> v)\<rparr>"

text \<open>\<^verbatim>\<open>prices.length > 0 ? calcStats(prices) : null\<close>\<close>

definition stats_or_null :: "rat list \<Rightarrow> cache_entry" where
  "stats_or_null prices = (if length prices > 0 then Stats (calcStats prices) else Empty)"

text \<open>The rest of \<^verbatim>\<open>doFetch\<close>, from the response on.\<close>

definition doFetch_done :: "job \<Rightarrow> response \<Rightarrow> state \<Rightarrow> state" where
  "doFetch_done j r s =
     (case r of
        TransportError \<Rightarrow> cache_set (job_key j) Empty s
      | Response status body \<Rightarrow>
          if status = 429 \<or> status = 503 then s\<lparr>timers := timers s @ [(5000, Retry j)]\<rparr>
          else if \<not> res_ok status then cache_set (job_key j) Empty s
          else (case body of
                  None \<Rightarrow> cache_set (job_key j) Empty s
                | Some prices \<Rightarrow> cache_set (job_key j) (stats_or_null prices) s))"

text \<open>The callback of the five-second timer that \<^verbatim>\<open>doFetch\<close> sets on a 429 or 503.\<close>

definition retry :: "job \<Rightarrow> state \<Rightarrow> state" where
  "retry j s =
     drain (if priceCache s (job_key j) = None then s\<lparr>fetchQueue := fetchQueue s @ [j]\<rparr> else s)"

definition scrapeCurrentPage :: "rat list \<Rightarrow> state \<Rightarrow> state" where
  "scrapeCurrentPage prices s =
     (if length prices > 0 then
        (case searchParams s of
           None \<Rightarrow> s
         | Some sp \<Rightarrow> cache_set (cacheKey (sp_checkin sp) (sp_checkout sp)) (Stats (calcStats prices)) s)
      else s\<lparr>timers := timers s @ [(2500, Scrape)]\<rparr>)"

subsection \<open>The calendar\<close>

text \<open>
  \<^verbatim>\<open>if (!priceCache.has(key)) priceCache.set(key, { loading: true })\<close> for the check-out
  date \<open>i\<close> days after the check-in.
\<close>

definition mark_loading :: "date \<Rightarrow> state \<Rightarrow> int \<Rightarrow> state" where
  "mark_loading checkinSnap s i =
     (let key = cacheKey checkinSnap (addDays checkinSnap i)
      in if priceCache s key = None then cache_set key Loading s else s)"

text \<open>The first loop of the homepage branch: the ten keys are marked as loading.\<close>

definition mark_checkouts :: "date \<Rightarrow> state \<Rightarrow> state" where
  "mark_checkouts checkinSnap s = foldl (mark_loading checkinSnap) s [1..10]"

text \<open>The second loop: ten \<^verbatim>\<open>fetchHomepagePrice\<close> requests are sent, outside the queue.\<close>

definition fetch_checkouts :: "date \<Rightarrow> state \<Rightarrow> state" where
  "fetch_checkouts checkinSnap s =
     s\<lparr>homepage := homepage s
            @ map (\<lambda>i. (checkinSnap, cacheKey checkinSnap (addDays checkinSnap i))) [1..10]\<rparr>"

text \<open>
  \<^verbatim>\<open>handleDateClick(date)\<close>; \<open>dest\<close> says whether \<^verbatim>\<open>getDestinationValue()\<close> is a
  non-empty text. Closing the picker and redrawing the badges change the document only.
\<close>

definition handleDateClick :: "date \<Rightarrow> bool \<Rightarrow> state \<Rightarrow> state" where
  "handleDateClick date dest s =
     (if (case selectedCheckin s of None \<Rightarrow> True | Some sc \<Rightarrow> daysBetween sc date \<le> 0) then
        (let s1 = s\<lparr>selectedCheckin := Some date\<rparr>
         in if searchParams s1 \<noteq> None then
              drain (enqueue_checkouts date s1)
            else if dest then fetch_checkouts date (mark_checkouts date s1)
            else s1)
      else s\<lparr>selectedCheckin := None\<rparr>)"

text \<open>
  The handler of one \<^verbatim>\<open>fetchHomepagePrice\<close> promise; \<open>res\<close> is \<open>None\<close> when the
  request fails or is not ok, and the extracted prices otherwise.
\<close>

definition homepage_done :: "date \<times> cache_key \<Rightarrow> rat list option \<Rightarrow> state \<Rightarrow> state" where
  "homepage_done h res s =
     (if selectedCheckin s = Some (fst h)
      then cache_set (snd h) (case res of None \<Rightarrow> Empty | Some prices \<Rightarrow> stats_or_null prices) s
      else s)"

text \<open>The observer of \<^verbatim>\<open>watchNavigation\<close>, once the new URL gave search parameters.\<close>

definition navigate :: "search_params \<Rightarrow> state \<Rightarrow> state" where
  "navigate fresh s =
     (let s1 = (if Some (sp_checkin fresh) \<noteq> map_option sp_checkin (searchParams s)
                   \<or> Some (sp_checkout fresh) \<noteq> map_option sp_checkout (searchParams s)
                then s\<lparr>fetchQueue := []\<rparr> else s)
      in s1\<lparr>searchParams := Some fresh, selectedCheckin := None,
            timers := timers s1 @ [(SCRAPE_DELAY_MS, Scrape)]\<rparr>)"

subsection \<open>Events\<close>

text \<open>
  Everything that makes the script run: the calendar is drawn or redrawn with its cells
  (\<^verbatim>\<open>refreshBadges\<close>; a cell is the date \<^verbatim>\<open>getCellDate\<close> reads, if any), a date is clicked,
  a pending timer fires (with the prices the document would give to a scrape), a request
  completes, the page navigates. An event names the pending work by its position.
\<close>

datatype event =
    CalendarDrawn "date option list"
  | DateClicked date bool
  | TimerFired nat "rat list"
  | FetchDone nat response
  | HomepageFetchDone nat "rat list option"
  | Navigated search_params

definition remove_nth :: "nat \<Rightarrow> 'a list \<Rightarrow> 'a list" where
  "remove_nth i xs = take i xs @ drop (Suc i) xs"

definition fire :: "timer_action \<Rightarrow> rat list \<Rightarrow> state \<Rightarrow> state" where
  "fire a doc s =
     (case a of
        DrainResume \<Rightarrow> drain s
      | DrainCall \<Rightarrow> drain s
      | Retry j \<Rightarrow> retry j s
      | Scrape \<Rightarrow> scrapeCurrentPage doc s)"

definition step :: "event \<Rightarrow> state \<Rightarrow> state option" where
  "step e s =
     (case e of
        CalendarDrawn cells \<Rightarrow> Some (queueFetchesForCells cells s)
      | DateClicked date dest \<Rightarrow> Some (handleDateClick date dest s)
      | TimerFired i doc \<Rightarrow>
          if i < length (timers s)
          then Some (fire (snd (timers s ! i)) doc (s\<lparr>timers := remove_nth i (timers s)\<rparr>))
          else None
      | FetchDone i r \<Rightarrow>
          if i < length (inflight s)
          then Some (fetch_finally
                       (doFetch_done (inflight s ! i) r (s\<lparr>inflight := remove_nth i (inflight s)\<rparr>)))
          else None
      | HomepageFetchDone i res \<Rightarrow>
          if i < length (homepage s)
          then Some (homepage_done (homepage s ! i) res (s\<lparr>homepage := remove_nth i (homepage s)\<rparr>))
          else None
      | Navigated fresh \<Rightarrow> Some (navigate fresh s))"

fun run :: "event list \<Rightarrow> state \<Rightarrow> state option" where
  "run [] s = Some s"
| "run (e # es) s = (case step e s of None \<Rightarrow> None | Some s' \<Rightarrow> run es s')"

subsection \<open>Colour coding\<close>

text \<open>
  \<^verbatim>\<open>getBadgeDates(badge)\<close>, for a badge of the calendar date \<open>date\<close>
  (\<^verbatim>\<open>badge.dataset.date\<close>).
\<close>

definition getBadgeDates :: "state \<Rightarrow> date \<Rightarrow> (date \<times> date) option" where
  "getBadgeDates s date =
     (if (case selectedCheckin s of
            None \<Rightarrow> False
          | Some sc \<Rightarrow> daysBetween sc date \<ge> 1 \<and> daysBetween sc date \<le> 10)
      then map_option (\<lambda>sc. (sc, date)) (selectedCheckin s)
      else (case searchParams s of
              None \<Rightarrow> None
            | Some sp \<Rightarrow> Some (date, addDays date (sp_nights sp))))"

text \<open>
  \<^verbatim>\<open>priceCache.get(cacheKey(dates.checkin, dates.checkout))?.min\<close> for a badge: \<open>None\<close> is
  \<^verbatim>\<open>undefined\<close> (no dates, no entry, a \<^verbatim>\<open>null\<close> entry or a loading marker).
\<close>

definition badge_min :: "state \<Rightarrow> date \<Rightarrow> rat option" where
  "badge_min s date =
     (case getBadgeDates s date of
        None \<Rightarrow> None
      | Some dates \<Rightarrow>
          (case priceCache s (cacheKey (fst dates) (snd dates)) of
             Some (Stats st) \<Rightarrow> stats_min st
           | _ \<Rightarrow> None))"

text \<open>The classes \<^verbatim>\<open>bpc-green\<close>, \<^verbatim>\<open>bpc-yellow\<close> and \<^verbatim>\<open>bpc-orange\<close>.\<close>

datatype colour = Green | Yellow | Orange

text \<open>
  \<^verbatim>\<open>Math.floor(mins.length * 0.33)\<close> and \<^verbatim>\<open>Math.floor(mins.length * 0.66)\<close>, with the
  exact products.
\<close>

definition lo_index :: "nat \<Rightarrow> nat" where
  "lo_index n = nat \<lfloor>of_nat n * (33 / 100 :: rat)\<rfloor>"

definition hi_index :: "nat \<Rightarrow> nat" where
  "hi_index n = nat \<lfloor>of_nat n * (66 / 100 :: rat)\<rfloor>"

text \<open>The sorted finite minimums of the loaded badges.\<close>

definition badge_mins :: "state \<Rightarrow> date list \<Rightarrow> rat list" where
  "badge_mins s loaded = sort (concat (map (\<lambda>b. case badge_min s b of None \<Rightarrow> [] | Some m \<Rightarrow> [m]) loaded))"

definition classify :: "rat \<Rightarrow> rat \<Rightarrow> rat \<Rightarrow> colour" where
  "classify lo hi m = (if m \<le> lo then Green else if m \<ge> hi then Orange else Yellow)"

text \<open>
  \<^verbatim>\<open>applyColorCoding()\<close>: \<open>loaded\<close> are the dates of the badges that carry the class
  \<^verbatim>\<open>bpc-loaded\<close>, in document order; the result gives the colour class set on each of
  them, \<open>None\<close> for a badge that is left as it is.
\<close>

definition applyColorCoding :: "state \<Rightarrow> date list \<Rightarrow> colour option list" where
  "applyColorCoding s loaded =
     (if searchParams s = None \<and> selectedCheckin s = None then map (\<lambda>b. None) loaded
      else if length loaded < 3 then map (\<lambda>b. None) loaded
      else (let mins = badge_mins s loaded
            in if length mins < 3 then map (\<lambda>b. None) loaded
               else (let lo = mins ! lo_index (length mins);
                         hi = mins ! hi_index (length mins)
                     in map (\<lambda>b. map_option (classify lo hi) (badge_min s b)) loaded)))"

subsection \<open>Merging hotel details\<close>

text \<open>
  \<^verbatim>\<open>String.prototype.trim\<close> and \<^verbatim>\<open>toLowerCase\<close> on ASCII text. A value that may fail the
  test \<^verbatim>\<open>typeof x === 'string'\<close> is a \<open>string option\<close>, \<open>None\<close> when it is not a string.
\<close>

definition trim :: "string \<Rightarrow> string" where
  "trim s = rev (dropWhile is_space (rev (dropWhile is_space s)))"

definition toLowerCase :: "string \<Rightarrow> string" where
  "toLowerCase s =
     map (\<lambda>c. if 65 \<le> (of_char c :: nat) \<and> (of_char c :: nat) \<le> 90
               then char_of ((of_char c :: nat) + 32) else c) s"

text \<open>\<^verbatim>\<open>typeof x === 'string' ? x.trim() : ''\<close>\<close>

definition trimmed :: "string option \<Rightarrow> string" where
  "trimmed x = (case x of None \<Rightarrow> [] | Some s \<Rightarrow> trim s)"

text \<open>
  The body of the inner loop of \<^verbatim>\<open>mergeUniqueStrings\<close>, on the pair of the array
  \<^verbatim>\<open>merged\<close> and the set \<^verbatim>\<open>seen\<close>.
\<close>

definition add_unique :: "string list \<times> string set \<Rightarrow> string option \<Rightarrow> string list \<times> string set" where
  "add_unique st item =
     (let text = trimmed item
      in if text = [] then st
         else (let key = toLowerCase text
               in if key \<in> snd st then st
                  else (fst st @ [text], insert key (snd st))))"

definition mergeUniqueStrings :: "string option list \<Rightarrow> string option list \<Rightarrow> string list" where
  "mergeUniqueStrings base extra = fst (foldl add_unique (foldl add_unique ([], {}) base) extra)"

text \<open>
  A JavaScript \<^verbatim>\<open>Map\<close> keeps its keys in the order of their first insertion, which is
  also what the array \<^verbatim>\<open>order\<close> of the merge functions records: the map and the array
  together are an association list, and \<^verbatim>\<open>set\<close> replaces the value of a key in place or
  appends a new key.
\<close>

fun map_set :: "'k \<Rightarrow> 'v \<Rightarrow> ('k \<times> 'v) list \<Rightarrow> ('k \<times> 'v) list" where
  "map_set k v [] = [(k, v)]"
| "map_set k v (p # ps) = (if fst p = k then (k, v) # ps else p # map_set k v ps)"

text \<open>A facility group as it comes in, and as the merge stores it.\<close>

record raw_group =
  rg_name :: "string option"
  rg_description :: "string option"
  rg_facilities :: "string option list"

record facility_group =
  fg_name :: string
  fg_description :: string
  fg_facilities :: "string list"

text \<open>The body of \<^verbatim>\<open>ingest\<close> in \<^verbatim>\<open>mergeFacilityGroups\<close>, for one group.\<close>

definition ingest_group :: "(string \<times> facility_group) list \<Rightarrow> raw_group \<Rightarrow> (string \<times> facility_group) list" where
  "ingest_group acc g =
     (let name = trimmed (rg_name g)
      in if name = [] then acc
         else (let key = toLowerCase name;
                   desc = trimmed (rg_description g);
                   facs = mergeUniqueStrings [] (rg_facilities g)
               in case map_of acc key of
                    None \<Rightarrow>
                      map_set key \<lparr>fg_name = name, fg_description = desc, fg_facilities = facs\<rparr> acc
                  | Some existing \<Rightarrow>
                      map_set key
                        (existing
                           \<lparr>fg_description :=
                              (if desc \<noteq> [] \<and> length desc > length (fg_description existing)
                               then desc else fg_description existing),
                            fg_facilities :=
                              mergeUniqueStrings (map Some (fg_facilities existing)) (map Some facs)\<rparr>)
                        acc))"

definition mergeFacilityGroups :: "raw_group list \<Rightarrow> raw_group list \<Rightarrow> facility_group list" where
  "mergeFacilityGroups base extra =
     filter (\<lambda>g. fg_facilities g \<noteq> [] \<or> fg_description g \<noteq> [])
       (map snd (foldl ingest_group (foldl ingest_group [] base) extra))"

text \<open>A point of interest and a category of the area information, raw and stored.\<close>

record raw_poi =
  rp_type :: "string option"
  rp_name :: "string option"
  rp_distance :: "string option"

record poi =
  poi_type :: string
  poi_name :: string
  poi_distance :: string

record raw_category =
  rc_name :: "string option"
  rc_pois :: "raw_poi list"

record category =
  cat_name :: string
  cat_pois :: "poi list"

text \<open>The template \<^verbatim>\<open>`${name.toLowerCase()}|${distance.toLowerCase()}`\<close>.\<close>

definition poi_key :: "string \<Rightarrow> string \<Rightarrow> string" where
  "poi_key name distance = toLowerCase name @ ''|'' @ toLowerCase distance"

text \<open>
  \<^verbatim>\<open>new Set(target.pois.map(p => ...))\<close>: the keys of the stored points, from which
  \<^verbatim>\<open>seenPoi\<close> starts.
\<close>

definition stored_keys :: "poi list \<Rightarrow> string set" where
  "stored_keys ps = set (map (\<lambda>p. poi_key (poi_name p) (poi_distance p)) ps)"

text \<open>The body of \<^verbatim>\<open>pois.forEach\<close>, on the pair of \<^verbatim>\<open>target.pois\<close> and \<^verbatim>\<open>seenPoi\<close>.\<close>

definition add_poi :: "poi list \<times> string set \<Rightarrow> raw_poi \<Rightarrow> poi list \<times> string set" where
  "add_poi st p =
     (let poiName = trimmed (rp_name p)
      in if poiName = [] then st
         else (let poiType = trimmed (rp_type p);
                   poiDist = trimmed (rp_distance p);
                   poiKey = poi_key poiName poiDist
               in if poiKey \<in> snd st then st
                  else (fst st @ [\<lparr>poi_type = poiType, poi_name = poiName, poi_distance = poiDist\<rparr>],
                        insert poiKey (snd st))))"

text \<open>
  The body of \<^verbatim>\<open>ingest\<close> in \<^verbatim>\<open>mergeAreaInfo\<close>, for one category; \<open>rc_pois\<close> is the empty
  list when \<^verbatim>\<open>category.pois\<close> is not an array.
\<close>

definition ingest_category :: "(string \<times> category) list \<Rightarrow> raw_category \<Rightarrow> (string \<times> category) list" where
  "ingest_category acc c =
     (let name = trimmed (rc_name c)
      in if name = [] then acc
         else (let key = toLowerCase name;
                   target = (case map_of acc key of
                               None \<Rightarrow> \<lparr>cat_name = name, cat_pois = []\<rparr>
                             | Some t \<Rightarrow> t);
                   seenPoi = stored_keys (cat_pois target)
               in map_set key
                    (target\<lparr>cat_pois := fst (foldl add_poi (cat_pois target, seenPoi) (rc_pois c))\<rparr>)
                    acc))"

definition mergeAreaInfo :: "raw_category list \<Rightarrow> raw_category list \<Rightarrow> category list" where
  "mergeAreaInfo base extra =
     filter (\<lambda>c. cat_pois c \<noteq> [])
       (map snd (foldl ingest_category (foldl ingest_category [] base) extra))"

subsection \<open>Predicates of the properties\<close>

text \<open>The counter of \<^verbatim>\<open>drain\<close> counts the requests in flight, within the limit.\<close>

definition slots_ok :: "state \<Rightarrow> bool" where
  "slots_ok s = (activeFetches s = int (length (inflight s)) \<and> activeFetches s \<le> MAX_CONCURRENT)"

text \<open>A terminal value of the cache: \<^verbatim>\<open>null\<close> or statistics.\<close>

fun terminal :: "cache_entry option \<Rightarrow> bool" where
  "terminal (Some Empty) = True"
| "terminal (Some (Stats st)) = True"
| "terminal (Some Loading) = False"
| "terminal None = False"

text \<open>A key that is in the cache, or has a job in the queue or a request in flight.\<close>

definition requested :: "state \<Rightarrow> cache_key \<Rightarrow> bool" where
  "requested s k =
     (priceCache s k \<noteq> None \<or> k \<in> job_key ` set (fetchQueue s) \<or> k \<in> job_key ` set (inflight s))"

text \<open>
  A list of stored strings is normal when every element is trimmed and not empty and no
  two elements are equal up to case.
\<close>

definition normal :: "string list \<Rightarrow> bool" where
  "normal xs = (list_all (\<lambda>x. x \<noteq> [] \<and> trim x = x) xs \<and> distinct (map toLowerCase xs))"

text \<open>An item that \<^verbatim>\<open>mergeUniqueStrings\<close> skips: it has no text, or its key has been seen.\<close>

definition seen_in :: "string set \<Rightarrow> string option \<Rightarrow> bool" where
  "seen_in S item = (trimmed item = [] \<or> toLowerCase (trimmed item) \<in> S)"

text \<open>
  A raw group that the merged groups cover: it has no name, or the group of its key has a
  description at least as long and every facility of it, up to case.
\<close>

definition group_covered :: "(string \<times> facility_group) list \<Rightarrow> raw_group \<Rightarrow> bool" where
  "group_covered acc g =
     (trimmed (rg_name g) = []
      \<or> (case map_of acc (toLowerCase (trimmed (rg_name g))) of
            None \<Rightarrow> False
          | Some e \<Rightarrow>
              length (trimmed (rg_description g)) \<le> length (fg_description e)
              \<and> toLowerCase ` set (mergeUniqueStrings [] (rg_facilities g))
                  \<subseteq> toLowerCase ` set (fg_facilities e)))"

definition groups_normal :: "(string \<times> facility_group) list \<Rightarrow> bool" where
  "groups_normal acc = list_all (\<lambda>p. normal (fg_facilities (snd p))) acc"

definition poi_seen :: "string set \<Rightarrow> raw_poi \<Rightarrow> bool" where
  "poi_seen S p =
     (trimmed (rp_name p) = []
      \<or> poi_key (trimmed (rp_name p)) (trimmed (rp_distance p)) \<in> S)"

definition category_covered :: "(string \<times> category) list \<Rightarrow> raw_category \<Rightarrow> bool" where
  "category_covered acc c =
     (trimmed (rc_name c) = []
      \<or> (case map_of acc (toLowerCase (trimmed (rc_name c))) of
            None \<Rightarrow> False
          | Some t \<Rightarrow> list_all (poi_seen (stored_keys (cat_pois t))) (rc_pois c)))"

subsection \<open>Example states\<close>

definition example_params :: search_params where
  "example_params = \<lparr>sp_checkin = 0, sp_checkout = 1, sp_nights = 1\<rparr>"

definition example_stats :: "rat \<Rightarrow> cache_entry" where
  "example_stats m =
     Stats \<lparr>stats_min = Some m, stats_max = Some m, stats_avg = Some \<lfloor>m\<rfloor>, stats_count = 1\<rparr>"

text \<open>Three one-night stays with the minimums 10, 20 and 30 in the cache.\<close>

definition priced_state :: state where
  "priced_state =
     (init (Some example_params))
       \<lparr>priceCache := [(1, 2) \<mapsto> example_stats 10, (2, 3) \<mapsto> example_stats 20,
                       (3, 4) \<mapsto> example_stats 30]\<rparr>"

text \<open>Three jobs in the queue and nothing in flight.\<close>

definition queued_state :: state where
  "queued_state =
     (init (Some example_params))\<lparr>fetchQueue := [mk_job 1 2, mk_job 2 3, mk_job 3 4]\<rparr>"

text \<open>
  The calendar is drawn, the waiting \<^verbatim>\<open>drain\<close> resumes twice, the first request
  succeeds, and the \<^verbatim>\<open>drain\<close> that its \<^verbatim>\<open>finally\<close> handler scheduled runs.
\<close>

definition busy_events :: "event list" where
  "busy_events =
     [CalendarDrawn [], TimerFired 1 [], TimerFired 1 [],
      FetchDone 0 (Response 200 (Some [100])), TimerFired 1 []]"

text \<open>The homepage, with one price in the cache.\<close>

definition homepage_state :: state where
  "homepage_state = (init None)\<lparr>priceCache := [(5, 6) \<mapsto> example_stats 80]\<rparr>"

text \<open>The check-in of day 5 is selected on the homepage.\<close>

definition selected_state :: state where
  "selected_state = (init None)\<lparr>selectedCheckin := Some 5\<rparr>"

text \<open>
  The job of the current search is dispatched and answered with 429; the page scrape
  finds a price; then the retry timer fires.
\<close>

definition throttled_events :: "event list" where
  "throttled_events =
     [CalendarDrawn [Some 0], FetchDone 0 (Response 429 None), TimerFired 0 [100],
      TimerFired 0 []]"

text \<open>A detail snapshot with texts that differ in case and white space only.\<close>

definition example_facilities :: "string option list" where
  "example_facilities = [Some '' Free WiFi '', Some ''free wifi'', None, Some ''  '', Some ''Pool'']"

definition example_groups :: "raw_group list" where
  "example_groups =
     [\<lparr>rg_name = Some ''Bathroom'', rg_description = Some ''x'', rg_facilities = [Some ''Towels'']\<rparr>,
      \<lparr>rg_name = Some '' bathroom '', rg_description = Some ''longer'',
         rg_facilities = [Some ''towels'', Some ''Soap'']\<rparr>,
      \<lparr>rg_name = Some ''Nothing'', rg_description = None, rg_facilities = []\<rparr>]"

definition example_area :: "raw_category list" where
  "example_area =
     [\<lparr>rc_name = Some ''Nearby'',
         rc_pois = [\<lparr>rp_type = None, rp_name = Some ''Park'', rp_distance = Some ''1 km''\<rparr>,
                    \<lparr>rp_type = Some ''x'', rp_name = Some ''park '', rp_distance = Some ''1 KM''\<rparr>]\<rparr>,
      \<lparr>rc_name = Some ''Far away'', rc_pois = []\<rparr>]"

section \<open>Properties\<close>

subsection \<open>esc\<close>

lemma replace_all_Nil: "replace_all c r [] = []"
  by (simp add: replace_all_def)

lemma replace_all_Cons:
  "replace_all c r (x # s) = (if x = c then r else [x]) @ replace_all c r s"
  by (simp add: replace_all_def)

lemma replace_all_append:
  "replace_all c r (a @ b) = replace_all c r a @ replace_all c r b"
  by (simp add: replace_all_def)

lemma esc_chain_entities:
  "replace_all (CHR 0x22) ''&quot;''
     (replace_all CHR ''>'' ''&gt;''
       (replace_all CHR ''<'' ''&lt;''
         (replace_all CHR ''&'' ''&amp;'' s))) = concat (map html_entity s)"
proof (induction s)
  case Nil
  show ?case by (simp add: replace_all_Nil)
next
  case (Cons x s)
  show ?case
    using Cons.IH
    by (simp add: replace_all_Cons replace_all_append replace_all_Nil html_entity_def)
qed

lemma html_entity_clean:
  "CHR ''<'' \<notin> set (html_entity c) \<and> CHR ''>'' \<notin> set (html_entity c)
   \<and> CHR 0x22 \<notin> set (html_entity c)"
  by (simp add: html_entity_def)

text \<open>
  C10. For every input value, \<^verbatim>\<open>esc\<close> returns a string with no raw \<open><\<close>,
  \<open>>\<close> or double quote: a falsy input gives the empty string, and otherwise every
  character of the stringified input is replaced by its HTML entity
  (\<open>&\<close>, \<open><\<close>, \<open>>\<close> and the double quote) or kept.
\<close>

theorem esc_no_markup:
  "esc v = (if truthy v then concat (map html_entity (String_of v)) else [])
   \<and> CHR ''<'' \<notin> set (esc v) \<and> CHR ''>'' \<notin> set (esc v) \<and> CHR 0x22 \<notin> set (esc v)"
proof -
  have eq: "esc v = (if truthy v then concat (map html_entity (String_of v)) else [])"
    by (simp add: esc_def esc_chain_entities)
  have "\<And>c. c \<in> set (esc v) \<Longrightarrow> c \<noteq> CHR ''<'' \<and> c \<noteq> CHR ''>'' \<and> c \<noteq> CHR 0x22"
    using html_entity_clean by (auto simp: eq split: if_splits)
  with eq show ?thesis by blast
qed

theorem esc_no_markup_witness:
  "esc (JStr ''a<b>&c'') = ''a&lt;b&gt;&amp;c'' \<and> esc (JStr [CHR 0x22]) = ''&quot;''
   \<and> esc (JStr []) = [] \<and> esc (JOther False ''0'') = [] \<and> esc (JOther True ''1<2'') = ''1&lt;2''"
  using esc_no_markup [of "JStr ''a<b>&c''"] esc_no_markup [of "JStr [CHR 0x22]"]
    esc_no_markup [of "JStr []"] esc_no_markup [of "JOther False ''0''"]
    esc_no_markup [of "JOther True ''1<2''"]
  by (simp add: html_entity_def)

subsection \<open>calcStats\<close>
















subsection \<open>parsePrice\<close>



lemma digit_is_price_char: "is_digit c \<Longrightarrow> is_price_char c"
  by (simp add: is_price_char_def)


lemma digit_not_dot: "is_digit c \<Longrightarrow> c \<noteq> CHR ''.''"
  by (auto simp: is_digit_def)

















subsection \<open>applyColorCoding\<close>

lemma lo_index_less: "0 < n \<Longrightarrow> lo_index n < n"
proof -
  assume n: "0 < n"
  have "of_nat n * (33 / 100 :: rat) < of_nat n" using n by simp
  then have "\<lfloor>of_nat n * (33 / 100 :: rat)\<rfloor> < int n"
    by (simp add: floor_less_iff)
  then show ?thesis using n by (simp add: lo_index_def)
qed

lemma hi_index_less: "0 < n \<Longrightarrow> hi_index n < n"
proof -
  assume n: "0 < n"
  have "of_nat n * (66 / 100 :: rat) < of_nat n" using n by simp
  then have "\<lfloor>of_nat n * (66 / 100 :: rat)\<rfloor> < int n"
    by (simp add: floor_less_iff)
  then show ?thesis using n by (simp add: hi_index_def)
qed

lemma lo_index_le_hi_index: "lo_index n \<le> hi_index n"
proof -
  have "of_nat n * (33 / 100 :: rat) \<le> of_nat n * (66 / 100)" by simp
  then have "\<lfloor>of_nat n * (33 / 100 :: rat)\<rfloor> \<le> \<lfloor>of_nat n * (66 / 100 :: rat)\<rfloor>"
    by (rule floor_mono)
  then show ?thesis by (simp add: lo_index_def hi_index_def)
qed

lemma lo_index_3: "lo_index (Suc (Suc (Suc 0))) = 0"
  by code_simp

lemma hi_index_3: "hi_index (Suc (Suc (Suc 0))) = 1"
  by code_simp

lemma length_badge_mins: "length (badge_mins s loaded) \<le> length loaded"
proof -
  have "length (concat (map (\<lambda>b. case badge_min s b of None \<Rightarrow> [] | Some m \<Rightarrow> [m]) loaded))
        \<le> length loaded"
    by (induction loaded) (auto split: option.splits)
  then show ?thesis by (simp add: badge_mins_def)
qed

lemma badge_mins_no_context:
  "searchParams s = None \<Longrightarrow> selectedCheckin s = None \<Longrightarrow> badge_mins s loaded = []"
proof -
  assume a: "searchParams s = None" "selectedCheckin s = None"
  have "set (badge_mins s loaded) = {}"
    by (simp add: badge_mins_def badge_min_def getBadgeDates_def a)
  then show ?thesis by simp
qed

lemma sorted_badge_mins: "sorted (badge_mins s loaded)"
  by (simp add: badge_mins_def)


lemma badge_mins_priced: "badge_mins priced_state [1, 2, 3] = [10, 20, 30]"
  by (simp add: priced_state_def init_def badge_mins_def badge_min_def getBadgeDates_def
      example_params_def cacheKey_def addDays_def example_stats_def)

lemma badge_min_priced:
  "badge_min priced_state 1 = Some 10" "badge_min priced_state 2 = Some 20"
  "badge_min priced_state 3 = Some 30"
  by (simp_all add: priced_state_def init_def badge_min_def getBadgeDates_def example_params_def
      cacheKey_def addDays_def example_stats_def)

lemma priced_context: "searchParams priced_state \<noteq> None"
  by (simp add: priced_state_def init_def)

text \<open>
  C8 (as amended). Once at least three loaded badges have a minimum price in the cache,
  the cutoffs \<open>lo\<close> and \<open>hi\<close> are the elements of the sorted minimums at the
  indices \<open>\<lfloor>0.33 n\<rfloor>\<close> and \<open>\<lfloor>0.66 n\<rfloor>\<close>, with \<open>lo \<le> hi\<close>, and every such badge is
  classified: low (green) when its minimum is at most \<open>lo\<close>, otherwise high (orange)
  when its minimum is at least \<open>hi\<close>, otherwise mid (yellow). A minimum equal to the
  low cutoff is low; a minimum equal to the high cutoff and above the low one is high.
\<close>

theorem applyColorCoding_classes:
  assumes three: "3 \<le> length (badge_mins s loaded)"
  shows "(let mins = badge_mins s loaded;
              lo = mins ! lo_index (length mins);
              hi = mins ! hi_index (length mins)
          in lo \<in> set mins \<and> hi \<in> set mins \<and> lo \<le> hi
           \<and> applyColorCoding s loaded
               = map (\<lambda>b. case badge_min s b of
                            None \<Rightarrow> None
                          | Some m \<Rightarrow> Some (if m \<le> lo then Green
                                           else if hi \<le> m then Orange else Yellow)) loaded)"
proof -
  let ?mins = "badge_mins s loaded"
  let ?n = "length ?mins"
  have pos: "0 < ?n" using three by linarith
  have li: "lo_index ?n < ?n" and hi: "hi_index ?n < ?n"
    using pos by (simp_all add: lo_index_less hi_index_less)
  have le: "?mins ! lo_index ?n \<le> ?mins ! hi_index ?n"
    by (rule sorted_nth_mono [OF sorted_badge_mins lo_index_le_hi_index hi])
  have ctx: "\<not> (searchParams s = None \<and> selectedCheckin s = None)"
  proof
    assume "searchParams s = None \<and> selectedCheckin s = None"
    then have "badge_mins s loaded = []" by (simp add: badge_mins_no_context)
    with three show False by simp
  qed
  have len: "\<not> length loaded < 3"
    using three length_badge_mins [of s loaded] by simp
  have eq: "applyColorCoding s loaded
      = map (\<lambda>b. map_option (classify (?mins ! lo_index ?n) (?mins ! hi_index ?n)) (badge_min s b)) loaded"
  proof -
    have lt: "\<not> length ?mins < 3" using three by simp
    show ?thesis
      unfolding applyColorCoding_def Let_def
      by (simp only: ctx len lt if_False)
  qed
  have cl: "\<And>b. map_option (classify (?mins ! lo_index ?n) (?mins ! hi_index ?n)) (badge_min s b)
      = (case badge_min s b of
           None \<Rightarrow> None
         | Some m \<Rightarrow> Some (if m \<le> ?mins ! lo_index ?n then Green
                          else if ?mins ! hi_index ?n \<le> m then Orange else Yellow))"
    by (simp add: classify_def split: option.splits)
  show ?thesis
    unfolding Let_def using li hi le by (simp add: eq cl)
qed


theorem applyColorCoding_classes_witness:
  "3 \<le> length (badge_mins priced_state [1, 2, 3])
   \<and> applyColorCoding priced_state [1, 2, 3] = [Some Green, Some Orange, Some Orange]"
  using applyColorCoding_classes [of priced_state "[1, 2, 3]"]
  by (simp add: badge_mins_priced badge_min_priced lo_index_3 hi_index_3 Let_def)

text \<open>
  C8 as stated fails at the high cutoff: with the minimums 10, 20 and 30 the cutoffs are
  10 and 20, and the badge whose minimum is 20, equal to the high cutoff, is classified
  high (orange), the upper of the two buckets that cutoff separates.
\<close>

theorem applyColorCoding_tie_high:
  "badge_min priced_state 2 = Some 20
   \<and> badge_mins priced_state [1, 2, 3] ! hi_index (length (badge_mins priced_state [1, 2, 3])) = 20
   \<and> applyColorCoding priced_state [1, 2, 3] = [Some Green, Some Orange, Some Orange]"
  by (simp add: applyColorCoding_def badge_mins_priced badge_min_priced lo_index_3 hi_index_3
      Let_def classify_def priced_context)

declare drain.simps [simp del]

subsection \<open>The scheduler: what the operations leave unchanged\<close>

lemma enqueue_fields [simp]:
  "priceCache (enqueue j s) = priceCache s"
  "activeFetches (enqueue j s) = activeFetches s"
  "inflight (enqueue j s) = inflight s"
  "searchParams (enqueue j s) = searchParams s"
  "selectedCheckin (enqueue j s) = selectedCheckin s"
  "timers (enqueue j s) = timers s"
  "homepage (enqueue j s) = homepage s"
  by (simp_all add: enqueue_def)

lemma foldl_enqueue_fields:
  "priceCache (foldl (\<lambda>s x. enqueue (f x) s) s xs) = priceCache s"
  "activeFetches (foldl (\<lambda>s x. enqueue (f x) s) s xs) = activeFetches s"
  "inflight (foldl (\<lambda>s x. enqueue (f x) s) s xs) = inflight s"
  "searchParams (foldl (\<lambda>s x. enqueue (f x) s) s xs) = searchParams s"
  "selectedCheckin (foldl (\<lambda>s x. enqueue (f x) s) s xs) = selectedCheckin s"
  by (induction xs arbitrary: s) simp_all

lemma enqueue_checkouts_fields [simp]:
  "priceCache (enqueue_checkouts d s) = priceCache s"
  "activeFetches (enqueue_checkouts d s) = activeFetches s"
  "inflight (enqueue_checkouts d s) = inflight s"
  "searchParams (enqueue_checkouts d s) = searchParams s"
  "selectedCheckin (enqueue_checkouts d s) = selectedCheckin s"
  unfolding enqueue_checkouts_def by (rule foldl_enqueue_fields)+

lemma enqueue_cells_fields [simp]:
  "priceCache (foldl (\<lambda>s cell. case cell of None \<Rightarrow> s | Some d \<Rightarrow> enqueue (f d) s) s cells) = priceCache s"
  "activeFetches (foldl (\<lambda>s cell. case cell of None \<Rightarrow> s | Some d \<Rightarrow> enqueue (f d) s) s cells) = activeFetches s"
  "inflight (foldl (\<lambda>s cell. case cell of None \<Rightarrow> s | Some d \<Rightarrow> enqueue (f d) s) s cells) = inflight s"
  "searchParams (foldl (\<lambda>s cell. case cell of None \<Rightarrow> s | Some d \<Rightarrow> enqueue (f d) s) s cells) = searchParams s"
  "selectedCheckin (foldl (\<lambda>s cell. case cell of None \<Rightarrow> s | Some d \<Rightarrow> enqueue (f d) s) s cells) = selectedCheckin s"
  by (induction cells arbitrary: s) (simp_all split: option.splits)

lemma fetch_finally_fields [simp]:
  "priceCache (fetch_finally s) = priceCache s"
  "activeFetches (fetch_finally s) = activeFetches s - 1"
  "inflight (fetch_finally s) = inflight s"
  "fetchQueue (fetch_finally s) = fetchQueue s"
  "searchParams (fetch_finally s) = searchParams s"
  "selectedCheckin (fetch_finally s) = selectedCheckin s"
  by (simp_all add: fetch_finally_def Let_def)

lemma drain_priceCache [simp]: "priceCache (drain s) = priceCache s"
proof (induction s rule: drain.induct)
  case (1 s)
  show ?case
    by (subst drain.simps) (use 1 in \<open>simp add: Let_def doFetch_start_def\<close>)
qed

lemma drain_selectedCheckin [simp]: "selectedCheckin (drain s) = selectedCheckin s"
proof (induction s rule: drain.induct)
  case (1 s)
  show ?case
    by (subst drain.simps) (use 1 in \<open>simp add: Let_def doFetch_start_def\<close>)
qed

lemma drain_searchParams [simp]: "searchParams (drain s) = searchParams s"
proof (induction s rule: drain.induct)
  case (1 s)
  show ?case
    by (subst drain.simps) (use 1 in \<open>simp add: Let_def doFetch_start_def\<close>)
qed

subsection \<open>The concurrency cap\<close>

lemma drain_slots_ok: "slots_ok s \<Longrightarrow> slots_ok (drain s)"
proof (induction s rule: drain.induct)
  case (1 s)
  show ?case
  proof (cases "fetchQueue s \<noteq> [] \<and> activeFetches s < MAX_CONCURRENT")
    case False
    have "drain s = s" by (subst drain.simps) (simp only: False if_False)
    with "1.prems" show ?thesis by simp
  next
    case True
    let ?s1 = "s\<lparr>fetchQueue := tl (fetchQueue s)\<rparr>"
    have s1: "slots_ok ?s1" using "1.prems" by (simp add: slots_ok_def)
    show ?thesis
    proof (cases "priceCache ?s1 (job_key (hd (fetchQueue s))) \<noteq> None")
      case skip: True
      have "slots_ok (drain ?s1)"
        using "1.IH" [OF True refl refl skip s1] .
      with True skip show ?thesis by (subst drain.simps) (simp add: Let_def)
    next
      case launch: False
      have "slots_ok (doFetch_start (hd (fetchQueue s)) (?s1\<lparr>activeFetches := activeFetches ?s1 + 1\<rparr>))"
        using "1.prems" True by (simp add: doFetch_start_def slots_ok_def)
      then show ?thesis
        using True launch by (subst drain.simps) (simp add: Let_def slots_ok_def)
    qed
  qed
qed

lemma queueFetchesForCells_slots_ok:
  assumes "slots_ok s"
  shows "slots_ok (queueFetchesForCells cells s)"
proof (cases "searchParams s")
  case None
  with assms show ?thesis by (simp add: queueFetchesForCells_def)
next
  case (Some sp)
  let ?s1 = "foldl (\<lambda>s cell. case cell of None \<Rightarrow> s
                 | Some date \<Rightarrow> enqueue (mk_job date (addDays date (sp_nights sp))) s) s cells"
  let ?s2 = "case selectedCheckin ?s1 of None \<Rightarrow> ?s1 | Some sc \<Rightarrow> enqueue_checkouts sc ?s1"
  have "slots_ok ?s1" using assms by (simp add: slots_ok_def)
  then have "slots_ok ?s2" by (simp add: slots_ok_def split: option.splits)
  then have "slots_ok (drain ?s2)" by (rule drain_slots_ok)
  then show ?thesis by (simp add: queueFetchesForCells_def Some Let_def)
qed

lemma mark_loading_fields [simp]:
  "activeFetches (mark_loading d s i) = activeFetches s"
  "inflight (mark_loading d s i) = inflight s"
  "fetchQueue (mark_loading d s i) = fetchQueue s"
  by (simp_all add: mark_loading_def cache_set_def Let_def)

lemma foldl_mark_loading_fields:
  "activeFetches (foldl (mark_loading d) s xs) = activeFetches s"
  "inflight (foldl (mark_loading d) s xs) = inflight s"
  "fetchQueue (foldl (mark_loading d) s xs) = fetchQueue s"
  by (induction xs arbitrary: s) simp_all

lemma mark_checkouts_fields [simp]:
  "activeFetches (mark_checkouts d s) = activeFetches s"
  "inflight (mark_checkouts d s) = inflight s"
  "fetchQueue (mark_checkouts d s) = fetchQueue s"
  unfolding mark_checkouts_def by (rule foldl_mark_loading_fields)+

lemma fetch_checkouts_fields [simp]:
  "activeFetches (fetch_checkouts d s) = activeFetches s"
  "inflight (fetch_checkouts d s) = inflight s"
  "fetchQueue (fetch_checkouts d s) = fetchQueue s"
  "priceCache (fetch_checkouts d s) = priceCache s"
  "selectedCheckin (fetch_checkouts d s) = selectedCheckin s"
  "searchParams (fetch_checkouts d s) = searchParams s"
  by (simp_all add: fetch_checkouts_def)

lemma handleDateClick_slots_ok:
  assumes "slots_ok s"
  shows "slots_ok (handleDateClick date dest s)"
proof -
  let ?s1 = "s\<lparr>selectedCheckin := Some date\<rparr>"
  let ?q = "enqueue_checkouts date ?s1"
  have "slots_ok ?q" using assms by (simp add: slots_ok_def)
  then have a: "slots_ok (drain ?q)" by (rule drain_slots_ok)
  have b: "slots_ok (fetch_checkouts date (mark_checkouts date ?s1))"
    using assms by (simp add: slots_ok_def)
  have c: "slots_ok ?s1" and d: "slots_ok (s\<lparr>selectedCheckin := None\<rparr>)"
    using assms by (simp_all add: slots_ok_def)
  from a b c d show ?thesis by (simp add: handleDateClick_def Let_def)
qed

lemma cache_set_fields [simp]:
  "activeFetches (cache_set k v s) = activeFetches s"
  "inflight (cache_set k v s) = inflight s"
  "fetchQueue (cache_set k v s) = fetchQueue s"
  "priceCache (cache_set k v s) = (priceCache s)(k \<mapsto> v)"
  "selectedCheckin (cache_set k v s) = selectedCheckin s"
  "searchParams (cache_set k v s) = searchParams s"
  "timers (cache_set k v s) = timers s"
  by (simp_all add: cache_set_def)

lemma fire_slots_ok:
  assumes "slots_ok s"
  shows "slots_ok (fire a doc s)"
proof (cases a)
  case DrainResume
  with assms show ?thesis by (simp add: fire_def drain_slots_ok)
next
  case DrainCall
  with assms show ?thesis by (simp add: fire_def drain_slots_ok)
next
  case (Retry j)
  have "slots_ok (if priceCache s (job_key j) = None then s\<lparr>fetchQueue := fetchQueue s @ [j]\<rparr> else s)"
    using assms by (simp add: slots_ok_def)
  then show ?thesis unfolding Retry fire_def retry_def timer_action.case by (rule drain_slots_ok)
next
  case Scrape
  with assms show ?thesis
    by (simp add: fire_def scrapeCurrentPage_def slots_ok_def split: option.splits)
qed

lemma doFetch_done_fields [simp]:
  "activeFetches (doFetch_done j r s) = activeFetches s"
  "inflight (doFetch_done j r s) = inflight s"
  "fetchQueue (doFetch_done j r s) = fetchQueue s"
  by (simp_all add: doFetch_done_def split: response.splits option.splits)

lemma length_remove_nth: "i < length xs \<Longrightarrow> length (remove_nth i xs) = length xs - 1"
  by (auto simp: remove_nth_def)

lemma step_slots_ok:
  assumes "slots_ok s" and "step e s = Some s'"
  shows "slots_ok s'"
proof (cases e)
  case (CalendarDrawn cells)
  with assms show ?thesis by (auto simp: step_def queueFetchesForCells_slots_ok)
next
  case (DateClicked date dest)
  with assms show ?thesis by (auto simp: step_def handleDateClick_slots_ok)
next
  case (TimerFired i doc)
  with assms have "s' = fire (snd (timers s ! i)) doc (s\<lparr>timers := remove_nth i (timers s)\<rparr>)"
    by (auto simp: step_def split: if_splits)
  moreover have "slots_ok (s\<lparr>timers := remove_nth i (timers s)\<rparr>)"
    using assms(1) by (simp add: slots_ok_def)
  ultimately show ?thesis by (simp add: fire_slots_ok)
next
  case (FetchDone i r)
  with assms have i: "i < length (inflight s)"
    and s': "s' = fetch_finally (doFetch_done (inflight s ! i) r (s\<lparr>inflight := remove_nth i (inflight s)\<rparr>))"
    by (auto simp: step_def split: if_splits)
  from i assms(1) show ?thesis
    by (auto simp: s' slots_ok_def length_remove_nth)
next
  case (HomepageFetchDone i res)
  with assms show ?thesis
    by (auto simp: step_def homepage_done_def slots_ok_def split: if_splits)
next
  case (Navigated fresh)
  with assms show ?thesis
    by (auto simp: step_def navigate_def slots_ok_def Let_def)
qed

lemma run_slots_ok: "slots_ok s \<Longrightarrow> run evs s = Some s' \<Longrightarrow> slots_ok s'"
proof (induction evs arbitrary: s)
  case Nil
  then show ?case by simp
next
  case (Cons e evs)
  then show ?case by (auto split: option.splits dest: step_slots_ok)
qed

lemma slots_ok_init: "slots_ok ((init sp)\<lparr>fetchQueue := q\<rparr>)"
  by (simp add: slots_ok_def init_def MAX_CONCURRENT_def)

text \<open>
  C6. With the cap \<open>MAX_CONCURRENT = 2\<close>: from the initial state with any queue
  \<open>q\<close> of jobs, however many, after every sequence of events (calendar redraws,
  clicks, timers that call or resume \<^verbatim>\<open>drain\<close>, completions of requests, navigations)
  \<^verbatim>\<open>activeFetches\<close> is the number of requests in flight and is at most 2. Every prefix
  of a sequence of events is one, so this holds after each event.
\<close>

theorem concurrency_cap:
  assumes "run evs ((init sp)\<lparr>fetchQueue := q\<rparr>) = Some s'"
  shows "activeFetches s' \<le> MAX_CONCURRENT \<and> int (length (inflight s')) = activeFetches s'
         \<and> length (inflight s') \<le> 2"
proof -
  have "slots_ok s'" using slots_ok_init assms by (rule run_slots_ok)
  then show ?thesis by (auto simp: slots_ok_def MAX_CONCURRENT_def)
qed

theorem concurrency_cap_witness:
  "queued_state = (init (Some example_params))\<lparr>fetchQueue := [mk_job 1 2, mk_job 2 3, mk_job 3 4]\<rparr>
   \<and> map_option activeFetches (run (take 3 busy_events) queued_state) = Some 2
   \<and> map_option activeFetches (run busy_events queued_state) = Some 2
   \<and> map_option (\<lambda>s. length (inflight s)) (run busy_events queued_state) = Some 2"
proof -
  have q: "queued_state
      = (init (Some example_params))\<lparr>fetchQueue := [mk_job 1 2, mk_job 2 3, mk_job 3 4]\<rparr>"
    by (simp add: queued_state_def)
  have a: "map_option activeFetches (run (take 3 busy_events) queued_state) = Some 2" by code_simp
  have b: "map_option activeFetches (run busy_events queued_state) = Some 2" by code_simp
  then obtain s' where r: "run busy_events queued_state = Some s'"
    by (cases "run busy_events queued_state") auto
  from concurrency_cap [OF r [unfolded q]] q a b r show ?thesis by simp
qed

subsection \<open>Terminal entries\<close>

lemma terminal_upd:
  "terminal (Some v) \<Longrightarrow> terminal (c k) \<Longrightarrow> terminal ((c(k' \<mapsto> v)) k)"
  by simp

lemma terminal_stats_or_null: "terminal (Some (stats_or_null prices))"
  by (simp add: stats_or_null_def)

lemma mark_loading_terminal:
  "terminal (priceCache s k) \<Longrightarrow> terminal (priceCache (mark_loading d s i) k)"
  by (cases "k = cacheKey d (addDays d i)"; cases "priceCache s k")
     (simp_all add: mark_loading_def Let_def)

lemma mark_checkouts_terminal:
  "terminal (priceCache s k) \<Longrightarrow> terminal (priceCache (mark_checkouts d s) k)"
proof -
  have "terminal (priceCache s k) \<Longrightarrow> terminal (priceCache (foldl (mark_loading d) s xs) k)" for xs
    by (induction xs arbitrary: s) (simp_all add: mark_loading_terminal)
  then show "terminal (priceCache s k) \<Longrightarrow> terminal (priceCache (mark_checkouts d s) k)"
    by (simp add: mark_checkouts_def)
qed

lemma queueFetchesForCells_priceCache [simp]:
  "priceCache (queueFetchesForCells cells s) = priceCache s"
  by (simp add: queueFetchesForCells_def Let_def split: option.splits)

lemma handleDateClick_terminal:
  "terminal (priceCache s k) \<Longrightarrow> terminal (priceCache (handleDateClick date dest s) k)"
  by (simp add: handleDateClick_def Let_def mark_checkouts_terminal)

lemma doFetch_done_terminal:
  assumes "terminal (priceCache s k)"
  shows "terminal (priceCache (doFetch_done j r s) k)"
proof (cases r)
  case TransportError
  with assms show ?thesis by (simp add: doFetch_done_def)
next
  case (Response status body)
  show ?thesis
  proof (cases body)
    case None
    with Response assms show ?thesis by (simp add: doFetch_done_def)
  next
    case (Some prices)
    with Response assms terminal_stats_or_null [of prices] show ?thesis
      by (simp add: doFetch_done_def)
  qed
qed

lemma fire_terminal:
  "terminal (priceCache s k) \<Longrightarrow> terminal (priceCache (fire a doc s) k)"
  by (cases a) (simp_all add: fire_def retry_def scrapeCurrentPage_def split: option.splits)

lemma homepage_done_terminal:
  "terminal (priceCache s k) \<Longrightarrow> terminal (priceCache (homepage_done h res s) k)"
  by (simp add: homepage_done_def terminal_stats_or_null split: option.splits)

lemma step_terminal:
  assumes "step e s = Some s'" and "terminal (priceCache s k)"
  shows "terminal (priceCache s' k)"
proof (cases e)
  case (CalendarDrawn cells)
  with assms show ?thesis by (auto simp: step_def)
next
  case (DateClicked date dest)
  with assms show ?thesis by (auto simp: step_def handleDateClick_terminal)
next
  case (TimerFired i doc)
  with assms have "s' = fire (snd (timers s ! i)) doc (s\<lparr>timers := remove_nth i (timers s)\<rparr>)"
    by (auto simp: step_def split: if_splits)
  with assms(2) show ?thesis by (simp add: fire_terminal)
next
  case (FetchDone i r)
  with assms have "s' = fetch_finally (doFetch_done (inflight s ! i) r (s\<lparr>inflight := remove_nth i (inflight s)\<rparr>))"
    by (auto simp: step_def split: if_splits)
  with assms(2) show ?thesis by (simp add: doFetch_done_terminal)
next
  case (HomepageFetchDone i res)
  with assms have "s' = homepage_done (homepage s ! i) res (s\<lparr>homepage := remove_nth i (homepage s)\<rparr>)"
    by (auto simp: step_def split: if_splits)
  with assms(2) show ?thesis by (simp add: homepage_done_terminal)
next
  case (Navigated fresh)
  with assms show ?thesis by (auto simp: step_def navigate_def Let_def)
qed

lemma run_terminal:
  "run evs s = Some s' \<Longrightarrow> terminal (priceCache s k) \<Longrightarrow> terminal (priceCache s' k)"
proof (induction evs arbitrary: s)
  case Nil
  then show ?case by simp
next
  case (Cons e evs)
  then show ?case by (auto split: option.splits dest: step_terminal)
qed

lemma not_terminal_cases: "\<not> terminal v \<Longrightarrow> v = None \<or> v = Some Loading"
  by (cases v rule: terminal.cases) simp_all

text \<open>
  C2. Once the cache entry of a key is terminal (\<^verbatim>\<open>null\<close> or statistics), it is terminal
  after every later sequence of events, so never the loading marker; and a key that holds
  the loading marker after a sequence of events had no entry, or the marker already,
  before it.
\<close>

theorem terminal_never_pending:
  assumes "run evs s = Some s'"
  shows "(terminal (priceCache s k) \<longrightarrow>
            terminal (priceCache s' k) \<and> priceCache s' k \<noteq> Some Loading)
       \<and> (priceCache s' k = Some Loading \<longrightarrow>
            priceCache s k = None \<or> priceCache s k = Some Loading)"
proof -
  have keep: "terminal (priceCache s' k)" if "terminal (priceCache s k)"
    using assms that by (rule run_terminal)
  then have a: "terminal (priceCache s k) \<longrightarrow>
      terminal (priceCache s' k) \<and> priceCache s' k \<noteq> Some Loading"
    by auto
  have b: "priceCache s k = None \<or> priceCache s k = Some Loading"
    if "priceCache s' k = Some Loading"
  proof (rule not_terminal_cases)
    show "\<not> terminal (priceCache s k)" using keep that by auto
  qed
  from a b show ?thesis by blast
qed


theorem terminal_never_pending_witness:
  "terminal (priceCache homepage_state (5, 6))
   \<and> map_option (\<lambda>s. priceCache s (5, 6)) (run [DateClicked 5 True] homepage_state)
       = Some (Some (example_stats 80))
   \<and> map_option (\<lambda>s. priceCache s (5, 7)) (run [DateClicked 5 True] homepage_state)
       = Some (Some Loading)
   \<and> priceCache homepage_state (5, 7) = None"
proof -
  have t: "terminal (priceCache homepage_state (5, 6))"
    by (simp add: homepage_state_def example_stats_def)
  have n: "priceCache homepage_state (5, 7) = None"
    by (simp add: homepage_state_def)
  have r: "run [DateClicked 5 True] homepage_state = Some (handleDateClick 5 True homepage_state)"
    by (simp add: step_def)
  have l: "priceCache (handleDateClick 5 True homepage_state) (5, 7) = Some Loading"
    by code_simp
  have k: "priceCache (handleDateClick 5 True homepage_state) (5, 6) = Some (example_stats 80)"
    by code_simp
  from terminal_never_pending [OF r, of "(5, 6)"] terminal_never_pending [OF r, of "(5, 7)"]
    t n r l k show ?thesis by simp
qed

subsection \<open>The queue holds one job per key\<close>

lemma find_key_None: "find (\<lambda>i. job_key i = k) q = None \<longleftrightarrow> k \<notin> job_key ` set q"
  by (auto simp: find_None_iff)

lemma enqueue_noop:
  "priceCache s (job_key j) \<noteq> None \<or> job_key j \<in> job_key ` set (fetchQueue s) \<Longrightarrow> enqueue j s = s"
  by (auto simp: enqueue_def find_key_None)

lemma enqueue_push:
  "priceCache s (job_key j) = None \<Longrightarrow> job_key j \<notin> job_key ` set (fetchQueue s) \<Longrightarrow>
   enqueue j s = s\<lparr>fetchQueue := fetchQueue s @ [j]\<rparr>"
  by (simp add: enqueue_def find_key_None)

lemma enqueue_idem: "enqueue j (enqueue j s) = enqueue j s"
proof (cases "priceCache s (job_key j) = None \<and> job_key j \<notin> job_key ` set (fetchQueue s)")
  case True
  then have "enqueue j s = s\<lparr>fetchQueue := fetchQueue s @ [j]\<rparr>" by (simp add: enqueue_push)
  then show ?thesis by (simp add: enqueue_noop)
next
  case False
  then have "enqueue j s = s" by (auto simp: enqueue_noop)
  then show ?thesis by simp
qed

lemma enqueue_distinct:
  "distinct (map job_key (fetchQueue s)) \<Longrightarrow> distinct (map job_key (fetchQueue (enqueue j s)))"
  by (auto simp: enqueue_def find_key_None)

lemma enqueue_checkouts_distinct:
  "distinct (map job_key (fetchQueue s)) \<Longrightarrow>
   distinct (map job_key (fetchQueue (enqueue_checkouts d s)))"
proof -
  have "distinct (map job_key (fetchQueue s)) \<Longrightarrow>
    distinct (map job_key (fetchQueue (foldl (\<lambda>s i. enqueue (mk_job d (addDays d i)) s) s xs)))" for xs
    by (induction xs arbitrary: s) (simp_all add: enqueue_distinct)
  then show "distinct (map job_key (fetchQueue s)) \<Longrightarrow>
      distinct (map job_key (fetchQueue (enqueue_checkouts d s)))"
    by (simp add: enqueue_checkouts_def)
qed

lemma enqueue_cells_distinct:
  "distinct (map job_key (fetchQueue s)) \<Longrightarrow>
   distinct (map job_key (fetchQueue
     (foldl (\<lambda>s cell. case cell of None \<Rightarrow> s | Some date \<Rightarrow> enqueue (f date) s) s cells)))"
  by (induction cells arbitrary: s) (simp_all add: enqueue_distinct split: option.splits)

lemma doFetch_start_fetchQueue [simp]: "fetchQueue (doFetch_start item s) = fetchQueue s"
  by (simp add: doFetch_start_def fetch_finally_def Let_def)

lemma drain_distinct:
  "distinct (map job_key (fetchQueue s)) \<Longrightarrow> distinct (map job_key (fetchQueue (drain s)))"
proof (induction s rule: drain.induct)
  case (1 s)
  show ?case
  proof (cases "fetchQueue s \<noteq> [] \<and> activeFetches s < MAX_CONCURRENT")
    case False
    have "drain s = s" by (subst drain.simps) (simp only: False if_False)
    with "1.prems" show ?thesis by simp
  next
    case True
    let ?s1 = "s\<lparr>fetchQueue := tl (fetchQueue s)\<rparr>"
    have d1: "distinct (map job_key (fetchQueue ?s1))"
      using "1.prems" by (simp add: map_tl distinct_tl)
    show ?thesis
    proof (cases "priceCache ?s1 (job_key (hd (fetchQueue s))) \<noteq> None")
      case skip: True
      have "distinct (map job_key (fetchQueue (drain ?s1)))"
        using "1.IH" [OF True refl refl skip d1] .
      with True skip show ?thesis by (subst drain.simps) (simp add: Let_def)
    next
      case launch: False
      with True d1 show ?thesis by (subst drain.simps) (simp add: Let_def)
    qed
  qed
qed

lemma queueFetchesForCells_distinct:
  assumes "distinct (map job_key (fetchQueue s))"
  shows "distinct (map job_key (fetchQueue (queueFetchesForCells cells s)))"
proof (cases "searchParams s")
  case None
  with assms show ?thesis by (simp add: queueFetchesForCells_def)
next
  case (Some sp)
  let ?s1 = "foldl (\<lambda>s cell. case cell of None \<Rightarrow> s
                 | Some date \<Rightarrow> enqueue (mk_job date (addDays date (sp_nights sp))) s) s cells"
  let ?s2 = "case selectedCheckin ?s1 of None \<Rightarrow> ?s1 | Some sc \<Rightarrow> enqueue_checkouts sc ?s1"
  have "distinct (map job_key (fetchQueue ?s1))" using assms by (rule enqueue_cells_distinct)
  then have "distinct (map job_key (fetchQueue ?s2))"
    by (simp add: enqueue_checkouts_distinct split: option.splits)
  then have "distinct (map job_key (fetchQueue (drain ?s2)))" by (rule drain_distinct)
  then show ?thesis by (simp add: queueFetchesForCells_def Some Let_def)
qed

lemma handleDateClick_distinct:
  assumes "distinct (map job_key (fetchQueue s))"
  shows "distinct (map job_key (fetchQueue (handleDateClick date dest s)))"
proof -
  let ?s1 = "s\<lparr>selectedCheckin := Some date\<rparr>"
  have "distinct (map job_key (fetchQueue (enqueue_checkouts date ?s1)))"
    using assms by (simp add: enqueue_checkouts_distinct)
  then have "distinct (map job_key (fetchQueue (drain (enqueue_checkouts date ?s1))))"
    by (rule drain_distinct)
  with assms show ?thesis by (simp add: handleDateClick_def Let_def)
qed

lemma one_job_of_key:
  "distinct (map job_key q) \<Longrightarrow> k \<in> job_key ` set q \<Longrightarrow>
   length (filter (\<lambda>i. job_key i = k) q) = 1"
proof (induction q)
  case Nil
  then show ?case by simp
next
  case (Cons x q)
  show ?case
  proof (cases "job_key x = k")
    case True
    with Cons.prems have "k \<notin> job_key ` set q" by auto
    then have "filter (\<lambda>i. job_key i = k) q = []" by (auto simp: filter_empty_conv)
    with True show ?thesis by simp
  next
    case False
    with Cons show ?thesis by auto
  qed
qed

lemma enqueue_count:
  assumes "priceCache s (job_key j) = None" and "distinct (map job_key (fetchQueue s))"
  shows "length (filter (\<lambda>i. job_key i = job_key j) (fetchQueue (enqueue j s))) = 1"
proof (rule one_job_of_key)
  show "distinct (map job_key (fetchQueue (enqueue j s)))"
    using assms(2) by (rule enqueue_distinct)
  show "job_key j \<in> job_key ` set (fetchQueue (enqueue j s))"
    using assms(1) by (auto simp: enqueue_def find_key_None)
qed

text \<open>
  C1 (as amended). The guarded push does nothing for a key that is in the cache or has a
  job in the queue: invoking it twice with the same key leaves the queue as one
  invocation does, with exactly one job of that key when the key is not cached, and the
  guarded push, \<^verbatim>\<open>queueFetchesForCells\<close> and \<^verbatim>\<open>handleDateClick\<close> keep the keys of the
  queue distinct. (A job in flight is in neither the cache nor the queue, and the guarded
  push does not see it.)
\<close>

theorem enqueue_dedup_queued:
  "enqueue j (enqueue j s) = enqueue j s
   \<and> (job_key j \<in> job_key ` set (fetchQueue s) \<longrightarrow> enqueue j s = s)
   \<and> (priceCache s (job_key j) \<noteq> None \<longrightarrow> enqueue j s = s)
   \<and> (distinct (map job_key (fetchQueue s)) \<longrightarrow>
        distinct (map job_key (fetchQueue (enqueue j s)))
      \<and> distinct (map job_key (fetchQueue (queueFetchesForCells cells s)))
      \<and> distinct (map job_key (fetchQueue (handleDateClick date dest s)))
      \<and> (priceCache s (job_key j) = None \<longrightarrow>
           length (filter (\<lambda>i. job_key i = job_key j) (fetchQueue (enqueue j s))) = 1))"
  using enqueue_idem [of j s] enqueue_noop [of s j] enqueue_distinct [of s j]
    queueFetchesForCells_distinct [of s cells] handleDateClick_distinct [of s date dest]
    enqueue_count [of s j]
  by blast

theorem enqueue_dedup_queued_witness:
  "enqueue (mk_job 2 3) queued_state = queued_state
   \<and> enqueue (mk_job 1 2) priced_state = priced_state
   \<and> distinct (map job_key (fetchQueue queued_state))
   \<and> priceCache queued_state (job_key (mk_job 7 8)) = None
   \<and> length (filter (\<lambda>i. job_key i = job_key (mk_job 7 8))
               (fetchQueue (enqueue (mk_job 7 8) queued_state))) = 1
   \<and> distinct (map job_key (fetchQueue (queueFetchesForCells [Some 2, Some 7] queued_state)))"
proof -
  have q: "job_key (mk_job 2 3) \<in> job_key ` set (fetchQueue queued_state)"
    by (simp add: queued_state_def init_def mk_job_def cacheKey_def)
  have c: "priceCache priced_state (job_key (mk_job 1 2)) \<noteq> None"
    by (simp add: priced_state_def init_def mk_job_def cacheKey_def)
  have d: "distinct (map job_key (fetchQueue queued_state))"
    by (simp add: queued_state_def init_def mk_job_def cacheKey_def)
  have n: "priceCache queued_state (job_key (mk_job 7 8)) = None"
    by (simp add: queued_state_def init_def)
  from enqueue_dedup_queued [of "mk_job 2 3" queued_state "[Some 2, Some 7]" 0 False]
    enqueue_dedup_queued [of "mk_job 1 2" priced_state "[]" 0 False]
    enqueue_dedup_queued [of "mk_job 7 8" queued_state "[Some 2, Some 7]" 0 False]
    q c d n
  show ?thesis by simp
qed

text \<open>
  C1 as stated fails for a job in flight. The calendar is drawn twice with the cell of day
  5 before any response: the first drawing dispatches the job of the key (5, 6), which
  leaves the queue and writes nothing to the cache; the second pushes the same key again
  and \<^verbatim>\<open>drain\<close> dispatches it again. Two requests of one key are in flight.
\<close>

theorem enqueue_twice_in_flight:
  "map_option inflight (run [CalendarDrawn [Some 5], CalendarDrawn [Some 5]] (init (Some example_params)))
     = Some [mk_job 5 6, mk_job 5 6]
   \<and> map_option (\<lambda>s. priceCache s (job_key (mk_job 5 6)))
        (run [CalendarDrawn [Some 5], CalendarDrawn [Some 5]] (init (Some example_params)))
     = Some None
   \<and> map_option inflight (run [CalendarDrawn [Some 5]] (init (Some example_params)))
     = Some [mk_job 5 6]"
  by code_simp

subsection \<open>What drain keeps of the queue\<close>

lemma drain_stop:
  "\<not> (fetchQueue s \<noteq> [] \<and> activeFetches s < MAX_CONCURRENT) \<Longrightarrow> drain s = s"
  by (subst drain.simps) auto

lemma drain_skip:
  "fetchQueue s \<noteq> [] \<Longrightarrow> activeFetches s < MAX_CONCURRENT \<Longrightarrow>
   priceCache s (job_key (hd (fetchQueue s))) \<noteq> None \<Longrightarrow>
   drain s = drain (s\<lparr>fetchQueue := tl (fetchQueue s)\<rparr>)"
  by (subst drain.simps) (simp add: Let_def)

lemma drain_launch:
  "fetchQueue s \<noteq> [] \<Longrightarrow> activeFetches s < MAX_CONCURRENT \<Longrightarrow>
   priceCache s (job_key (hd (fetchQueue s))) = None \<Longrightarrow>
   drain s =
     (let s2 = doFetch_start (hd (fetchQueue s))
                 (s\<lparr>fetchQueue := tl (fetchQueue s), activeFetches := activeFetches s + 1\<rparr>)
      in if fetchQueue s2 \<noteq> [] then s2\<lparr>timers := timers s2 @ [(180, DrainResume)]\<rparr> else s2)"
  by (subst drain.simps) (simp add: Let_def)

lemma drain_keeps_job:
  "searchParams s \<noteq> None \<Longrightarrow> priceCache s (job_key j) = None \<Longrightarrow>
   j \<in> set (fetchQueue s) \<union> set (inflight s) \<Longrightarrow>
   j \<in> set (fetchQueue (drain s)) \<union> set (inflight (drain s))"
proof (induction s rule: drain.induct)
  case (1 s)
  show ?case
  proof (cases "fetchQueue s \<noteq> [] \<and> activeFetches s < MAX_CONCURRENT")
    case False
    then have "drain s = s" by (rule drain_stop)
    with "1.prems" show ?thesis by simp
  next
    case True
    let ?item = "hd (fetchQueue s)"
    let ?s1 = "s\<lparr>fetchQueue := tl (fetchQueue s)\<rparr>"
    from True have q: "set (fetchQueue s) = insert ?item (set (tl (fetchQueue s)))"
      by (cases "fetchQueue s") simp_all
    show ?thesis
    proof (cases "priceCache ?s1 (job_key ?item) \<noteq> None")
      case skip: True
      with "1.prems"(2) have "j \<noteq> ?item" by auto
      with "1.prems"(3) q have "j \<in> set (fetchQueue ?s1) \<union> set (inflight ?s1)"
        by auto
      with "1.prems" have "j \<in> set (fetchQueue (drain ?s1)) \<union> set (inflight (drain ?s1))"
        by (intro "1.IH" [OF True refl refl skip]) simp_all
      moreover have "drain s = drain ?s1" using True skip by (simp add: drain_skip)
      ultimately show ?thesis by simp
    next
      case launch: False
      have "j \<in> set (tl (fetchQueue s)) \<union> set (inflight s @ [?item])"
        using "1.prems"(3) q by auto
      with True launch "1.prems"(1) show ?thesis
        by (auto simp: drain_launch Let_def doFetch_start_def)
    qed
  qed
qed

lemma drain_requested:
  assumes "searchParams s \<noteq> None" and "requested s k"
  shows "requested (drain s) k"
proof (cases "priceCache s k = None")
  case False
  then show ?thesis by (simp add: requested_def)
next
  case True
  with assms(2) obtain j where j: "j \<in> set (fetchQueue s) \<union> set (inflight s)" and k: "k = job_key j"
    by (auto simp: requested_def)
  from drain_keeps_job [OF assms(1) _ j] True k
  have "j \<in> set (fetchQueue (drain s)) \<union> set (inflight (drain s))" by simp
  with k show ?thesis by (auto simp: requested_def)
qed

lemma enqueue_requested_new: "requested (enqueue j s) (job_key j)"
  by (auto simp: requested_def enqueue_def find_key_None)

lemma enqueue_requested_old: "requested s k \<Longrightarrow> requested (enqueue j s) k"
  by (auto simp: requested_def enqueue_def)

lemma enqueue_checkouts_requested:
  "i \<in> set [1..10] \<Longrightarrow> requested (enqueue_checkouts d s) (cacheKey d (addDays d i))"
proof -
  let ?f = "\<lambda>s i. enqueue (mk_job d (addDays d i)) s"
  have old: "requested s k \<Longrightarrow> requested (foldl ?f s xs) k" for s k xs
    by (induction xs arbitrary: s) (simp_all add: enqueue_requested_old)
  have new: "i \<in> set xs \<Longrightarrow> requested (foldl ?f s xs) (cacheKey d (addDays d i))" for s xs
  proof (induction xs arbitrary: s)
    case Nil
    then show ?case by simp
  next
    case (Cons x xs)
    show ?case
    proof (cases "i = x")
      case True
      have "requested (enqueue (mk_job d (addDays d x)) s) (job_key (mk_job d (addDays d x)))"
        by (rule enqueue_requested_new)
      then have "requested (enqueue (mk_job d (addDays d x)) s) (cacheKey d (addDays d i))"
        by (simp add: mk_job_def True)
      then show ?thesis by (simp add: old)
    next
      case False
      with Cons show ?thesis by simp
    qed
  qed
  show "i \<in> set [1..10] \<Longrightarrow> requested (enqueue_checkouts d s) (cacheKey d (addDays d i))"
    unfolding enqueue_checkouts_def by (rule new)
qed

subsection \<open>handleDateClick\<close>

lemma mark_checkouts_selectedCheckin [simp]:
  "selectedCheckin (mark_checkouts d s) = selectedCheckin s"
proof -
  have "selectedCheckin (foldl (mark_loading d) s xs) = selectedCheckin s" for xs
    by (induction xs arbitrary: s) (simp_all add: mark_loading_def Let_def)
  then show ?thesis by (simp add: mark_checkouts_def)
qed

lemma handleDateClick_checkin:
  assumes "selectedCheckin s = None \<or> (\<exists>d. selectedCheckin s = Some d \<and> date \<le> d)"
  shows "selectedCheckin (handleDateClick date dest s) = Some date"
    and "searchParams s \<noteq> None \<Longrightarrow> i \<in> set [1..10] \<Longrightarrow>
         requested (handleDateClick date dest s) (cacheKey date (addDays date i))"
    and "searchParams s = None \<Longrightarrow>
         fetchQueue (handleDateClick date dest s) = fetchQueue s
         \<and> inflight (handleDateClick date dest s) = inflight s"
proof -
  have c: "(case selectedCheckin s of None \<Rightarrow> True | Some sc \<Rightarrow> daysBetween sc date \<le> 0)"
    using assms by (auto simp: daysBetween_def)
  show "selectedCheckin (handleDateClick date dest s) = Some date"
    using c by (simp add: handleDateClick_def Let_def)
  show "requested (handleDateClick date dest s) (cacheKey date (addDays date i))"
    if sp: "searchParams s \<noteq> None" and i: "i \<in> set [1..10]"
  proof -
    let ?q = "enqueue_checkouts date (s\<lparr>selectedCheckin := Some date\<rparr>)"
    have "requested ?q (cacheKey date (addDays date i))"
      using i by (rule enqueue_checkouts_requested)
    moreover have "searchParams ?q \<noteq> None" using sp by simp
    ultimately have "requested (drain ?q) (cacheKey date (addDays date i))"
      by (rule drain_requested [rotated])
    with sp c show ?thesis by (simp add: handleDateClick_def Let_def)
  qed
  show "fetchQueue (handleDateClick date dest s) = fetchQueue s
        \<and> inflight (handleDateClick date dest s) = inflight s"
    if "searchParams s = None"
    using that c by (simp add: handleDateClick_def Let_def)
qed

lemma handleDateClick_checkout:
  assumes "selectedCheckin s = Some d" and "d < date"
  shows "handleDateClick date dest s = s\<lparr>selectedCheckin := None\<rparr>"
  using assms by (simp add: handleDateClick_def daysBetween_def)

lemma mark_checkouts_homepage [simp]: "homepage (mark_checkouts d s) = homepage s"
proof -
  have "homepage (foldl (mark_loading d) s xs) = homepage s" for xs
    by (induction xs arbitrary: s) (simp_all add: mark_loading_def cache_set_def Let_def)
  then show ?thesis by (simp add: mark_checkouts_def)
qed

lemma handleDateClick_homepage:
  assumes "selectedCheckin s = None \<or> (\<exists>d. selectedCheckin s = Some d \<and> date \<le> d)"
    and "searchParams s = None"
  shows "dest \<Longrightarrow> homepage (handleDateClick date dest s)
           = homepage s @ map (\<lambda>i. (date, cacheKey date (addDays date i))) [1..10]"
    and "\<not> dest \<Longrightarrow> handleDateClick date dest s = s\<lparr>selectedCheckin := Some date\<rparr>"
proof -
  have c: "(case selectedCheckin s of None \<Rightarrow> True | Some sc \<Rightarrow> daysBetween sc date \<le> 0)"
    using assms(1) by (auto simp: daysBetween_def)
  show "homepage (handleDateClick date dest s)
           = homepage s @ map (\<lambda>i. (date, cacheKey date (addDays date i))) [1..10]" if dest
    using that c assms(2) by (simp add: handleDateClick_def Let_def fetch_checkouts_def)
  show "handleDateClick date dest s = s\<lparr>selectedCheckin := Some date\<rparr>" if "\<not> dest"
    using that c assms(2) by (simp add: handleDateClick_def Let_def)
qed

text \<open>
  C7 (as amended). On a date pick: if no check-in is selected, or the picked date is at
  or before the selected check-in, the picked date becomes the selected check-in; then,
  if search parameters are known, each of the keys of the next ten check-out dates is in
  the cache, in the queue or in flight, and without search parameters nothing is added to
  the queue nor dispatched from it: with a destination typed the ten requests are sent
  directly, and otherwise only the selection changes. If a check-in is selected and the pick is strictly
  after it, only the selection changes: it is cleared. So picking \<open>D1\<close> then a later
  \<open>D2\<close> clears the selection, and picking \<open>D1\<close> then an earlier \<open>D0\<close>
  selects \<open>D0\<close>.
\<close>

theorem handleDateClick_selection:
  "(selectedCheckin s = None \<or> (\<exists>d. selectedCheckin s = Some d \<and> date \<le> d) \<longrightarrow>
      selectedCheckin (handleDateClick date dest s) = Some date
      \<and> (searchParams s \<noteq> None \<longrightarrow>
           (\<forall>i \<in> set [1..10].
              requested (handleDateClick date dest s) (cacheKey date (addDays date i))))
      \<and> (searchParams s = None \<longrightarrow>
           fetchQueue (handleDateClick date dest s) = fetchQueue s
           \<and> inflight (handleDateClick date dest s) = inflight s)
      \<and> (searchParams s = None \<and> dest \<longrightarrow>
           homepage (handleDateClick date dest s)
             = homepage s @ map (\<lambda>i. (date, cacheKey date (addDays date i))) [1..10])
      \<and> (searchParams s = None \<and> \<not> dest \<longrightarrow>
           handleDateClick date dest s = s\<lparr>selectedCheckin := Some date\<rparr>))
   \<and> ((\<exists>d. selectedCheckin s = Some d \<and> d < date) \<longrightarrow>
        handleDateClick date dest s = s\<lparr>selectedCheckin := None\<rparr>)
   \<and> (selectedCheckin s = None \<and> date < D2 \<longrightarrow>
        selectedCheckin (handleDateClick D2 dest2 (handleDateClick date dest s)) = None)
   \<and> (selectedCheckin s = None \<and> D0 < date \<longrightarrow>
        selectedCheckin (handleDateClick D0 dest0 (handleDateClick date dest s)) = Some D0)"
proof -
  have first: "selectedCheckin (handleDateClick date dest s) = Some date"
    if "selectedCheckin s = None"
    using that by (simp add: handleDateClick_checkin(1))
  have a: "selectedCheckin (handleDateClick D2 dest2 (handleDateClick date dest s)) = None"
    if "selectedCheckin s = None" and "date < D2"
    using first [OF that(1)] that(2) by (simp add: handleDateClick_checkout)
  have b: "selectedCheckin (handleDateClick D0 dest0 (handleDateClick date dest s)) = Some D0"
    if "selectedCheckin s = None" and "D0 < date"
    using first [OF that(1)] that(2) by (simp add: handleDateClick_checkin(1))
  from handleDateClick_checkin [where s = s and date = date and dest = dest]
    handleDateClick_homepage [where s = s and date = date and dest = dest]
    handleDateClick_checkout [where s = s and date = date and dest = dest] a b
  show ?thesis by blast
qed

theorem handleDateClick_selection_witness:
  "selectedCheckin (init (Some example_params)) = None
   \<and> selectedCheckin (handleDateClick 5 False (init (Some example_params))) = Some 5
   \<and> requested (handleDateClick 5 False (init (Some example_params))) (cacheKey 5 (addDays 5 3))
   \<and> fetchQueue (handleDateClick 5 True (init None)) = []
   \<and> length (homepage (handleDateClick 5 True (init None))) = 10
   \<and> handleDateClick 5 False (init None) = (init None)\<lparr>selectedCheckin := Some 5\<rparr>
   \<and> handleDateClick 8 False selected_state = selected_state\<lparr>selectedCheckin := None\<rparr>
   \<and> selectedCheckin (handleDateClick 5 False selected_state) = Some 5
   \<and> selectedCheckin (handleDateClick 8 False (handleDateClick 5 False (init None))) = None
   \<and> selectedCheckin (handleDateClick 2 False (handleDateClick 5 False (init None))) = Some 2"
proof -
  have a: "selectedCheckin (init (Some example_params)) = None"
    and b: "searchParams (init (Some example_params)) \<noteq> None"
    and c: "selectedCheckin (init None) = None"
    and d: "searchParams (init None) = None"
    and e: "fetchQueue (init None) = []"
    and h: "homepage (init None) = []"
    and f: "selectedCheckin selected_state = Some 5"
    by (simp_all add: init_def selected_state_def)
  have three: "(3::int) \<in> set [1..10]" by simp
  from handleDateClick_selection [of "init (Some example_params)" 5 False 8 False 2 False] a b three
  have one: "selectedCheckin (handleDateClick 5 False (init (Some example_params))) = Some 5
      \<and> requested (handleDateClick 5 False (init (Some example_params))) (cacheKey 5 (addDays 5 3))"
    by blast
  from handleDateClick_selection [of "init None" 5 True 8 False 2 False] c d e h
  have two: "fetchQueue (handleDateClick 5 True (init None)) = []
      \<and> length (homepage (handleDateClick 5 True (init None))) = 10"
    by simp
  from handleDateClick_selection [of "init None" 5 False 8 False 2 False] c d
  have four: "handleDateClick 5 False (init None) = (init None)\<lparr>selectedCheckin := Some 5\<rparr>
      \<and> selectedCheckin (handleDateClick 8 False (handleDateClick 5 False (init None))) = None
      \<and> selectedCheckin (handleDateClick 2 False (handleDateClick 5 False (init None))) = Some 2"
    by force
  from handleDateClick_selection [of selected_state 8 False 9 False 2 False] f
  have five: "handleDateClick 8 False selected_state = selected_state\<lparr>selectedCheckin := None\<rparr>"
    by simp
  from handleDateClick_selection [of selected_state 5 False 9 False 2 False] f
  have six: "selectedCheckin (handleDateClick 5 False selected_state) = Some 5"
    by simp
  from a one two four five six show ?thesis by blast
qed

text \<open>
  C7 as stated fails without search parameters: on the homepage with no destination typed
  the first pick selects the check-in, and no job is enqueued and no request is sent.
\<close>

theorem date_click_without_search:
  "selectedCheckin (init None) = None
   \<and> selectedCheckin (handleDateClick 5 False (init None)) = Some 5
   \<and> fetchQueue (handleDateClick 5 False (init None)) = []
   \<and> inflight (handleDateClick 5 False (init None)) = []
   \<and> homepage (handleDateClick 5 False (init None)) = []"
  by (simp add: handleDateClick_def init_def)

subsection \<open>doFetch\<close>

lemma res_ok_not_throttled: "res_ok status \<Longrightarrow> status \<noteq> 429 \<and> status \<noteq> 503"
  by (auto simp: res_ok_def)

lemma retry_keeps_job:
  assumes "priceCache s (job_key j) = None" and "searchParams s \<noteq> None"
  shows "j \<in> set (fetchQueue (retry j s)) \<union> set (inflight (retry j s))"
proof -
  let ?s = "s\<lparr>fetchQueue := fetchQueue s @ [j]\<rparr>"
  have "j \<in> set (fetchQueue (drain ?s)) \<union> set (inflight (drain ?s))"
    using assms by (intro drain_keeps_job) simp_all
  with assms(1) show ?thesis by (simp add: retry_def)
qed

text \<open>
  C3 (as amended). For a dispatched job: a status 429 or 503 writes nothing to the cache
  and sets a timer of 5000 ms whose callback puts the job back when its key is still not
  cached (the job is then queued or in flight) and only calls \<^verbatim>\<open>drain\<close> when the key
  has been cached meanwhile; any other status that is not ok, and a failed request, write
  \<^verbatim>\<open>null\<close> for the key; an ok response writes \<^verbatim>\<open>null\<close> when no price is extracted (or
  the extraction throws) and the statistics of the prices otherwise. A written key sets
  no timer and is not enqueued again.
\<close>

theorem doFetch_response_handling:
  "(status = 429 \<or> status = 503 \<longrightarrow>
      doFetch_done j (Response status body) s = s\<lparr>timers := timers s @ [(5000, Retry j)]\<rparr>)
   \<and> (priceCache s (job_key j) = None \<and> searchParams s \<noteq> None \<longrightarrow>
        j \<in> set (fetchQueue (retry j s)) \<union> set (inflight (retry j s)))
   \<and> (priceCache s (job_key j) \<noteq> None \<longrightarrow> retry j s = drain s)
   \<and> (status \<noteq> 429 \<and> status \<noteq> 503 \<and> \<not> res_ok status \<longrightarrow>
        doFetch_done j (Response status body) s = cache_set (job_key j) Empty s)
   \<and> doFetch_done j TransportError s = cache_set (job_key j) Empty s
   \<and> (res_ok status \<longrightarrow>
        doFetch_done j (Response status None) s = cache_set (job_key j) Empty s
      \<and> doFetch_done j (Response status (Some [])) s = cache_set (job_key j) Empty s
      \<and> (prices \<noteq> [] \<longrightarrow>
           doFetch_done j (Response status (Some prices)) s
             = cache_set (job_key j) (Stats (calcStats prices)) s))
   \<and> priceCache (cache_set (job_key j) v s) (job_key j) = Some v
   \<and> timers (cache_set (job_key j) v s) = timers s
   \<and> fetchQueue (cache_set (job_key j) v s) = fetchQueue s
   \<and> enqueue j (cache_set (job_key j) v s) = cache_set (job_key j) v s"
proof -
  have a: "doFetch_done j (Response status body) s = s\<lparr>timers := timers s @ [(5000, Retry j)]\<rparr>"
    if "status = 429 \<or> status = 503"
    using that by (auto simp: doFetch_done_def)
  have b: "retry j s = drain s" if "priceCache s (job_key j) \<noteq> None"
    using that by (auto simp: retry_def)
  have c: "doFetch_done j (Response status body) s = cache_set (job_key j) Empty s"
    if "status \<noteq> 429 \<and> status \<noteq> 503 \<and> \<not> res_ok status"
    using that by (simp add: doFetch_done_def)
  have d: "doFetch_done j TransportError s = cache_set (job_key j) Empty s"
    by (simp add: doFetch_done_def)
  have e: "doFetch_done j (Response status None) s = cache_set (job_key j) Empty s
      \<and> doFetch_done j (Response status (Some [])) s = cache_set (job_key j) Empty s
      \<and> (prices \<noteq> [] \<longrightarrow>
           doFetch_done j (Response status (Some prices)) s
             = cache_set (job_key j) (Stats (calcStats prices)) s)"
    if "res_ok status"
    using that res_ok_not_throttled [OF that] by (simp add: doFetch_done_def stats_or_null_def)
  have f: "enqueue j (cache_set (job_key j) v s) = cache_set (job_key j) v s"
    by (rule enqueue_noop) simp
  from a b c d e f retry_keeps_job [of s j] show ?thesis by simp
qed

theorem doFetch_response_handling_witness:
  "doFetch_done (mk_job 0 1) (Response 429 None) (init (Some example_params))
     = (init (Some example_params))
         \<lparr>timers := timers (init (Some example_params)) @ [(5000, Retry (mk_job 0 1))]\<rparr>
   \<and> doFetch_done (mk_job 0 1) (Response 404 None) (init (Some example_params))
     = cache_set (job_key (mk_job 0 1)) Empty (init (Some example_params))
   \<and> doFetch_done (mk_job 0 1) (Response 200 (Some [100])) (init (Some example_params))
     = cache_set (job_key (mk_job 0 1)) (Stats (calcStats [100])) (init (Some example_params))
   \<and> mk_job 0 1 \<in> set (fetchQueue (retry (mk_job 0 1) (init (Some example_params))))
                 \<union> set (inflight (retry (mk_job 0 1) (init (Some example_params))))
   \<and> retry (mk_job 1 2) priced_state = drain priced_state"
proof -
  have a: "priceCache (init (Some example_params)) (job_key (mk_job 0 1)) = None"
    and b: "searchParams (init (Some example_params)) \<noteq> None"
    by (simp_all add: init_def)
  have c: "priceCache priced_state (job_key (mk_job 1 2)) \<noteq> None"
    by (simp add: priced_state_def init_def mk_job_def cacheKey_def)
  have d: "res_ok 200" and e: "\<not> res_ok 404"
    by (simp_all add: res_ok_def)
  from doFetch_response_handling [of 429 "mk_job 0 1" None "init (Some example_params)" "[100]" Empty]
    doFetch_response_handling [of 404 "mk_job 0 1" None "init (Some example_params)" "[100]" Empty]
    doFetch_response_handling [of 200 "mk_job 0 1" None "init (Some example_params)" "[100]" Empty]
    doFetch_response_handling [of 200 "mk_job 1 2" None priced_state "[100]" Empty]
    a b c d e
  show ?thesis by simp
qed


text \<open>
  C3 as stated fails when the key is cached during the cool-down: the job of the current
  search gets a 429, the page scrape then writes the statistics of that key, and when the
  retry timer fires the job is not put back. Nothing is queued or in flight at the end.
\<close>

theorem throttled_job_not_requeued:
  "map_option (\<lambda>s. (inflight s, priceCache s (0, 1))) (run (take 1 throttled_events) (init (Some example_params)))
      = Some ([mk_job 0 1], None)
   \<and> map_option (\<lambda>s. (fetchQueue s, inflight s, timers s))
        (run (take 2 throttled_events) (init (Some example_params)))
      = Some ([], [], [(SCRAPE_DELAY_MS, Scrape), (5000, Retry (mk_job 0 1))])
   \<and> map_option (\<lambda>s. (fetchQueue s, inflight s, timers s))
        (run throttled_events (init (Some example_params)))
      = Some ([], [], [])"
  by code_simp

subsection \<open>mergeUniqueStrings\<close>

lemma trim_ends:
  "trim s = [] \<or> (\<not> is_space (hd (trim s)) \<and> \<not> is_space (last (trim s)))"
proof (cases "trim s = []")
  case True
  then show ?thesis by simp
next
  case False
  let ?u = "dropWhile is_space s"
  let ?v = "dropWhile is_space (rev ?u)"
  have t: "trim s = rev ?v" by (simp add: trim_def)
  with False have v: "?v \<noteq> []" by simp
  then have hv: "\<not> is_space (hd ?v)" by (rule hd_dropWhile)
  have "last (trim s) = hd ?v" using v by (simp add: t last_rev)
  with hv have l: "\<not> is_space (last (trim s))" by simp
  have "rev ?u = takeWhile is_space (rev ?u) @ ?v" by simp
  then have "?u = rev ?v @ rev (takeWhile is_space (rev ?u))"
    by (metis rev_append rev_rev_ident)
  then have "hd ?u = hd (rev ?v)" using v by (metis hd_append2 rev_is_Nil_conv)
  moreover have "?u \<noteq> []"
  proof
    assume "?u = []"
    with v show False by simp
  qed
  then have "\<not> is_space (hd ?u)" by (rule hd_dropWhile)
  ultimately have "\<not> is_space (hd (trim s))" by (simp add: t)
  with l show ?thesis by simp
qed

lemma trim_fixed:
  assumes "t \<noteq> []" and "\<not> is_space (hd t)" and "\<not> is_space (last t)"
  shows "trim t = t"
proof -
  have a: "dropWhile is_space t = t" using assms(1,2) by (cases t) simp_all
  have "rev t \<noteq> []" and "\<not> is_space (hd (rev t))"
    using assms(1,3) by (simp_all add: hd_rev)
  then have "dropWhile is_space (rev t) = rev t" by (cases "rev t") simp_all
  with a show ?thesis by (simp add: trim_def)
qed

lemma trim_idem: "trim (trim s) = trim s"
proof (cases "trim s = []")
  case True
  have "trim [] = []" by (simp add: trim_def)
  with True show ?thesis by simp
next
  case False
  with trim_ends [of s] show ?thesis by (intro trim_fixed) auto
qed

text \<open>The state of the loop: the set is the set of the keys of the array, which is normal.\<close>

lemma add_unique_inv:
  assumes "snd st = toLowerCase ` set (fst st)" and "normal (fst st)"
  shows "snd (add_unique st item) = toLowerCase ` set (fst (add_unique st item))"
    and "normal (fst (add_unique st item))"
  using assms
  by (auto simp: add_unique_def Let_def normal_def trimmed_def trim_idem split: option.splits)

lemma foldl_add_unique_inv:
  assumes "snd st = toLowerCase ` set (fst st)" and "normal (fst st)"
  shows "snd (foldl add_unique st items) = toLowerCase ` set (fst (foldl add_unique st items))
         \<and> normal (fst (foldl add_unique st items))"
  using assms
proof (induction items arbitrary: st)
  case Nil
  then show ?case by simp
next
  case (Cons x items)
  show ?case
    using Cons.IH [OF add_unique_inv [OF Cons.prems]] by simp
qed

lemma normal_mergeUniqueStrings: "normal (mergeUniqueStrings base extra)"
proof -
  let ?st = "foldl add_unique ([], {}) base"
  have one: "snd ?st = toLowerCase ` set (fst ?st) \<and> normal (fst ?st)"
    by (rule foldl_add_unique_inv) (simp_all add: normal_def)
  have "snd (foldl add_unique ?st extra) = toLowerCase ` set (fst (foldl add_unique ?st extra))
        \<and> normal (fst (foldl add_unique ?st extra))"
    by (rule foldl_add_unique_inv) (simp_all add: one)
  then show ?thesis by (simp add: mergeUniqueStrings_def)
qed

lemma add_unique_seen: "seen_in (snd st) item \<Longrightarrow> add_unique st item = st"
  by (auto simp: add_unique_def seen_in_def Let_def)

lemma foldl_add_unique_seen:
  "list_all (seen_in (snd st)) items \<Longrightarrow> foldl add_unique st items = st"
  by (induction items) (simp_all add: add_unique_seen)

lemma add_unique_grows: "snd st \<subseteq> snd (add_unique st item)"
  by (auto simp: add_unique_def Let_def)

lemma add_unique_sees: "seen_in (snd (add_unique st item)) item"
  by (auto simp: add_unique_def seen_in_def Let_def)

lemma seen_in_mono: "S \<subseteq> T \<Longrightarrow> seen_in S item \<Longrightarrow> seen_in T item"
  by (auto simp: seen_in_def)

lemma foldl_add_unique_grows: "snd st \<subseteq> snd (foldl add_unique st items)"
proof (induction items arbitrary: st)
  case Nil
  show ?case by simp
next
  case (Cons x items)
  have "snd st \<subseteq> snd (add_unique st x)" by (rule add_unique_grows)
  also have "\<dots> \<subseteq> snd (foldl add_unique (add_unique st x) items)" by (rule Cons.IH)
  finally show ?case by simp
qed

lemma foldl_add_unique_sees: "list_all (seen_in (snd (foldl add_unique st items))) items"
proof (induction items arbitrary: st)
  case Nil
  show ?case by simp
next
  case (Cons x items)
  have "seen_in (snd (add_unique st x)) x" by (rule add_unique_sees)
  then have "seen_in (snd (foldl add_unique (add_unique st x) items)) x"
    by (rule seen_in_mono [OF foldl_add_unique_grows])
  with Cons.IH [of "add_unique st x"] show ?case by simp
qed

lemma mergeUniqueStrings_self: "mergeUniqueStrings s s = mergeUniqueStrings s []"
proof -
  have "foldl add_unique (foldl add_unique ([], {}) s) s = foldl add_unique ([], {}) s"
    by (rule foldl_add_unique_seen) (rule foldl_add_unique_sees)
  then show ?thesis by (simp add: mergeUniqueStrings_def)
qed

text \<open>Merging into a normal list: the list stays in front, and unseen texts are appended.\<close>

lemma foldl_add_unique_normal:
  "normal (M @ F) \<Longrightarrow>
   foldl add_unique (M, toLowerCase ` set M) (map Some F) = (M @ F, toLowerCase ` set (M @ F))"
proof (induction F arbitrary: M)
  case Nil
  show ?case by simp
next
  case (Cons f F)
  from Cons.prems have f: "f \<noteq> []" "trim f = f" "toLowerCase f \<notin> toLowerCase ` set M"
    by (auto simp: normal_def)
  then have "add_unique (M, toLowerCase ` set M) (Some f) = (M @ [f], toLowerCase ` set (M @ [f]))"
    by (simp add: add_unique_def trimmed_def Let_def)
  moreover have "normal ((M @ [f]) @ F)" using Cons.prems by simp
  ultimately show ?case using Cons.IH [of "M @ [f]"] by simp
qed

lemma mergeUniqueStrings_absorb:
  assumes "normal F" and "normal G" and "toLowerCase ` set G \<subseteq> toLowerCase ` set F"
  shows "mergeUniqueStrings (map Some F) (map Some G) = F"
proof -
  have a: "foldl add_unique ([], {}) (map Some F) = (F, toLowerCase ` set F)"
    using foldl_add_unique_normal [of "[]" F] assms(1) by simp
  have "list_all (seen_in (toLowerCase ` set F)) (map Some G)"
    using assms(2,3) by (auto simp: list_all_iff seen_in_def trimmed_def normal_def)
  then have "foldl add_unique (F, toLowerCase ` set F) (map Some G) = (F, toLowerCase ` set F)"
    by (intro foldl_add_unique_seen) simp
  with a show ?thesis by (simp add: mergeUniqueStrings_def)
qed

lemma mergeUniqueStrings_keys:
  assumes "normal F" and "normal G"
  shows "toLowerCase ` set F \<subseteq> toLowerCase ` set (mergeUniqueStrings (map Some F) (map Some G))"
    and "toLowerCase ` set G \<subseteq> toLowerCase ` set (mergeUniqueStrings (map Some F) (map Some G))"
proof -
  let ?st = "foldl add_unique ([], {}) (map Some F)"
  let ?fin = "foldl add_unique ?st (map Some G)"
  have a: "?st = (F, toLowerCase ` set F)"
    using foldl_add_unique_normal [of "[]" F] assms(1) by simp
  have inv: "snd ?fin = toLowerCase ` set (fst ?fin)"
    unfolding a by (intro conjunct1 [OF foldl_add_unique_inv]) (simp_all add: assms(1))
  have "snd ?st \<subseteq> snd ?fin" by (rule foldl_add_unique_grows)
  then show "toLowerCase ` set F \<subseteq> toLowerCase ` set (mergeUniqueStrings (map Some F) (map Some G))"
    using inv by (simp add: a mergeUniqueStrings_def)
  have "list_all (seen_in (snd ?fin)) (map Some G)" by (rule foldl_add_unique_sees)
  then have "\<And>g. g \<in> set G \<Longrightarrow> toLowerCase g \<in> snd ?fin"
    using assms(2) by (auto simp: list_all_iff seen_in_def trimmed_def normal_def)
  then show "toLowerCase ` set G \<subseteq> toLowerCase ` set (mergeUniqueStrings (map Some F) (map Some G))"
    using inv by (auto simp: mergeUniqueStrings_def)
qed

subsection \<open>The association list of a merge\<close>

lemma map_of_map_set: "map_of (map_set k v acc) k' = (if k' = k then Some v else map_of acc k')"
  by (induction acc) auto

lemma map_set_same: "map_of acc k = Some v \<Longrightarrow> map_set k v acc = acc"
  by (induction acc) (auto split: if_splits)

lemma list_all_map_set: "list_all P acc \<Longrightarrow> P (k, v) \<Longrightarrow> list_all P (map_set k v acc)"
  by (induction acc) auto

lemma list_all_map_of: "list_all P acc \<Longrightarrow> map_of acc k = Some v \<Longrightarrow> P (k, v)"
  by (auto simp: list_all_iff dest: map_of_SomeD)

subsection \<open>mergeFacilityGroups\<close>

lemma ingest_group_normal:
  assumes "groups_normal acc"
  shows "groups_normal (ingest_group acc g)"
  using assms unfolding groups_normal_def ingest_group_def Let_def
  by (auto split: option.splits intro!: list_all_map_set simp: normal_mergeUniqueStrings)

lemma ingest_group_covers:
  assumes "groups_normal acc"
  shows "group_covered (ingest_group acc g) g"
proof (cases "trimmed (rg_name g) = []")
  case True
  then show ?thesis by (simp add: group_covered_def)
next
  case False
  let ?key = "toLowerCase (trimmed (rg_name g))"
  let ?facs = "mergeUniqueStrings [] (rg_facilities g)"
  show ?thesis
  proof (cases "map_of acc ?key")
    case None
    with False show ?thesis
      by (simp add: group_covered_def ingest_group_def Let_def map_of_map_set)
  next
    case (Some e)
    have "normal (fg_facilities e)"
      using list_all_map_of [OF assms [unfolded groups_normal_def] Some] by simp
    then have "toLowerCase ` set ?facs
        \<subseteq> toLowerCase ` set (mergeUniqueStrings (map Some (fg_facilities e)) (map Some ?facs))"
      by (rule mergeUniqueStrings_keys(2)) (rule normal_mergeUniqueStrings)
    with False Some show ?thesis
      by (simp add: group_covered_def ingest_group_def Let_def map_of_map_set)
  qed
qed

lemma ingest_group_keeps_covered:
  assumes "groups_normal acc" and "group_covered acc g"
  shows "group_covered (ingest_group acc h) g"
proof (cases "trimmed (rg_name g) = [] \<or> trimmed (rg_name h) = []")
  case True
  with assms(2) show ?thesis by (auto simp: group_covered_def ingest_group_def)
next
  case False
  let ?kg = "toLowerCase (trimmed (rg_name g))"
  let ?kh = "toLowerCase (trimmed (rg_name h))"
  let ?facs = "mergeUniqueStrings [] (rg_facilities h)"
  from assms(2) False obtain e where e: "map_of acc ?kg = Some e"
    and d: "length (trimmed (rg_description g)) \<le> length (fg_description e)"
    and f: "toLowerCase ` set (mergeUniqueStrings [] (rg_facilities g))
              \<subseteq> toLowerCase ` set (fg_facilities e)"
    by (auto simp: group_covered_def split: option.splits)
  show ?thesis
  proof (cases "?kg = ?kh")
    case diff: False
    with False e d f show ?thesis
      by (auto simp: group_covered_def ingest_group_def Let_def map_of_map_set split: option.splits)
  next
    case same: True
    have "normal (fg_facilities e)"
      using list_all_map_of [OF assms(1) [unfolded groups_normal_def] e] by simp
    then have "toLowerCase ` set (fg_facilities e)
        \<subseteq> toLowerCase ` set (mergeUniqueStrings (map Some (fg_facilities e)) (map Some ?facs))"
      by (rule mergeUniqueStrings_keys(1)) (rule normal_mergeUniqueStrings)
    with f have "toLowerCase ` set (mergeUniqueStrings [] (rg_facilities g))
        \<subseteq> toLowerCase ` set (mergeUniqueStrings (map Some (fg_facilities e)) (map Some ?facs))"
      by (rule subset_trans)
    with False e d same [symmetric] show ?thesis
      by (simp add: group_covered_def ingest_group_def Let_def map_of_map_set)
  qed
qed

lemma ingest_group_covered_noop:
  assumes "groups_normal acc" and "group_covered acc g"
  shows "ingest_group acc g = acc"
proof (cases "trimmed (rg_name g) = []")
  case True
  then show ?thesis by (simp add: ingest_group_def)
next
  case False
  let ?key = "toLowerCase (trimmed (rg_name g))"
  let ?facs = "mergeUniqueStrings [] (rg_facilities g)"
  from assms(2) False obtain e where e: "map_of acc ?key = Some e"
    and d: "length (trimmed (rg_description g)) \<le> length (fg_description e)"
    and f: "toLowerCase ` set ?facs \<subseteq> toLowerCase ` set (fg_facilities e)"
    by (auto simp: group_covered_def split: option.splits)
  have "normal (fg_facilities e)"
    using list_all_map_of [OF assms(1) [unfolded groups_normal_def] e] by simp
  then have "mergeUniqueStrings (map Some (fg_facilities e)) (map Some ?facs) = fg_facilities e"
    using normal_mergeUniqueStrings f by (rule mergeUniqueStrings_absorb)
  with False e d show ?thesis
    by (simp add: ingest_group_def Let_def map_set_same)
qed

lemma foldl_ingest_group_normal:
  "groups_normal acc \<Longrightarrow> groups_normal (foldl ingest_group acc gs)"
  by (induction gs arbitrary: acc) (simp_all add: ingest_group_normal)

lemma foldl_ingest_group_keeps_covered:
  "groups_normal acc \<Longrightarrow> group_covered acc g \<Longrightarrow> group_covered (foldl ingest_group acc gs) g"
  by (induction gs arbitrary: acc) (simp_all add: ingest_group_normal ingest_group_keeps_covered)

lemma foldl_ingest_group_covers:
  "groups_normal acc \<Longrightarrow> list_all (group_covered (foldl ingest_group acc gs)) gs"
proof (induction gs arbitrary: acc)
  case Nil
  show ?case by simp
next
  case (Cons x gs)
  have n: "groups_normal (ingest_group acc x)" using Cons.prems by (rule ingest_group_normal)
  have "group_covered (ingest_group acc x) x" using Cons.prems by (rule ingest_group_covers)
  with n have "group_covered (foldl ingest_group (ingest_group acc x) gs) x"
    by (rule foldl_ingest_group_keeps_covered)
  with Cons.IH [OF n] show ?case by simp
qed

lemma foldl_ingest_group_noop:
  "groups_normal acc \<Longrightarrow> list_all (group_covered acc) gs \<Longrightarrow> foldl ingest_group acc gs = acc"
  by (induction gs) (simp_all add: ingest_group_covered_noop)

lemma mergeFacilityGroups_self: "mergeFacilityGroups s s = mergeFacilityGroups s []"
proof -
  have n: "groups_normal (foldl ingest_group [] s)"
    by (rule foldl_ingest_group_normal) (simp add: groups_normal_def)
  have "list_all (group_covered (foldl ingest_group [] s)) s"
    by (rule foldl_ingest_group_covers) (simp add: groups_normal_def)
  with n have "foldl ingest_group (foldl ingest_group [] s) s = foldl ingest_group [] s"
    by (rule foldl_ingest_group_noop)
  then show ?thesis by (simp add: mergeFacilityGroups_def)
qed

subsection \<open>mergeAreaInfo\<close>

lemma add_poi_inv:
  "snd st = stored_keys (fst st) \<Longrightarrow> snd (add_poi st p) = stored_keys (fst (add_poi st p))"
  by (auto simp: add_poi_def Let_def stored_keys_def)

lemma foldl_add_poi_inv:
  "snd st = stored_keys (fst st) \<Longrightarrow>
   snd (foldl add_poi st ps) = stored_keys (fst (foldl add_poi st ps))"
  by (induction ps arbitrary: st) (simp_all add: add_poi_inv)

lemma add_poi_seen: "poi_seen (snd st) p \<Longrightarrow> add_poi st p = st"
  by (auto simp: add_poi_def poi_seen_def Let_def)

lemma foldl_add_poi_seen: "list_all (poi_seen (snd st)) ps \<Longrightarrow> foldl add_poi st ps = st"
  by (induction ps) (simp_all add: add_poi_seen)

lemma add_poi_grows: "snd st \<subseteq> snd (add_poi st p)"
  by (auto simp: add_poi_def Let_def)

lemma add_poi_sees: "poi_seen (snd (add_poi st p)) p"
  by (auto simp: add_poi_def poi_seen_def Let_def)

lemma poi_seen_mono: "S \<subseteq> T \<Longrightarrow> poi_seen S p \<Longrightarrow> poi_seen T p"
  by (auto simp: poi_seen_def)

lemma foldl_add_poi_grows: "snd st \<subseteq> snd (foldl add_poi st ps)"
proof (induction ps arbitrary: st)
  case Nil
  show ?case by simp
next
  case (Cons x ps)
  have "snd st \<subseteq> snd (add_poi st x)" by (rule add_poi_grows)
  also have "\<dots> \<subseteq> snd (foldl add_poi (add_poi st x) ps)" by (rule Cons.IH)
  finally show ?case by simp
qed

lemma foldl_add_poi_sees: "list_all (poi_seen (snd (foldl add_poi st ps))) ps"
proof (induction ps arbitrary: st)
  case Nil
  show ?case by simp
next
  case (Cons x ps)
  have "poi_seen (snd (add_poi st x)) x" by (rule add_poi_sees)
  then have "poi_seen (snd (foldl add_poi (add_poi st x) ps)) x"
    by (rule poi_seen_mono [OF foldl_add_poi_grows])
  with Cons.IH [of "add_poi st x"] show ?case by simp
qed

text \<open>The points of a category after one more list of raw points has been added.\<close>

lemma added_pois:
  "stored_keys P \<subseteq> stored_keys (fst (foldl add_poi (P, stored_keys P) ps))"
  "list_all (poi_seen (stored_keys (fst (foldl add_poi (P, stored_keys P) ps)))) ps"
proof -
  let ?fin = "foldl add_poi (P, stored_keys P) ps"
  have inv: "snd ?fin = stored_keys (fst ?fin)" by (rule foldl_add_poi_inv) simp
  have "snd (P, stored_keys P) \<subseteq> snd ?fin" by (rule foldl_add_poi_grows)
  then show "stored_keys P \<subseteq> stored_keys (fst ?fin)" by (simp add: inv)
  have "list_all (poi_seen (snd ?fin)) ps" by (rule foldl_add_poi_sees)
  then show "list_all (poi_seen (stored_keys (fst ?fin))) ps" by (simp add: inv)
qed

lemma ingest_category_covers: "category_covered (ingest_category acc c) c"
proof (cases "trimmed (rc_name c) = []")
  case True
  then show ?thesis by (simp add: category_covered_def)
next
  case False
  then show ?thesis
    using added_pois(2) [of _ "rc_pois c"]
    by (simp add: category_covered_def ingest_category_def Let_def map_of_map_set
        split: option.splits)
qed

lemma ingest_category_keeps_covered:
  assumes "category_covered acc c"
  shows "category_covered (ingest_category acc h) c"
proof (cases "trimmed (rc_name c) = [] \<or> trimmed (rc_name h) = []")
  case True
  with assms show ?thesis by (auto simp: category_covered_def ingest_category_def)
next
  case False
  let ?kc = "toLowerCase (trimmed (rc_name c))"
  let ?kh = "toLowerCase (trimmed (rc_name h))"
  from assms False obtain t where t: "map_of acc ?kc = Some t"
    and p: "list_all (poi_seen (stored_keys (cat_pois t))) (rc_pois c)"
    by (auto simp: category_covered_def split: option.splits)
  show ?thesis
  proof (cases "?kc = ?kh")
    case diff: False
    with False t p show ?thesis
      by (simp add: category_covered_def ingest_category_def Let_def map_of_map_set)
  next
    case same: True
    let ?P = "fst (foldl add_poi (cat_pois t, stored_keys (cat_pois t)) (rc_pois h))"
    have "stored_keys (cat_pois t) \<subseteq> stored_keys ?P" by (rule added_pois(1))
    with p have "list_all (poi_seen (stored_keys ?P)) (rc_pois c)"
      by (auto simp: list_all_iff intro: poi_seen_mono)
    with False t same [symmetric] show ?thesis
      by (simp add: category_covered_def ingest_category_def Let_def map_of_map_set)
  qed
qed

lemma ingest_category_covered_noop:
  assumes "category_covered acc c"
  shows "ingest_category acc c = acc"
proof (cases "trimmed (rc_name c) = []")
  case True
  then show ?thesis by (simp add: ingest_category_def)
next
  case False
  let ?key = "toLowerCase (trimmed (rc_name c))"
  from assms False obtain t where t: "map_of acc ?key = Some t"
    and p: "list_all (poi_seen (stored_keys (cat_pois t))) (rc_pois c)"
    by (auto simp: category_covered_def split: option.splits)
  have "foldl add_poi (cat_pois t, stored_keys (cat_pois t)) (rc_pois c)
        = (cat_pois t, stored_keys (cat_pois t))"
    by (rule foldl_add_poi_seen) (simp add: p)
  with False t show ?thesis
    by (simp add: ingest_category_def Let_def map_set_same)
qed

lemma foldl_ingest_category_keeps_covered:
  "category_covered acc c \<Longrightarrow> category_covered (foldl ingest_category acc cs) c"
  by (induction cs arbitrary: acc) (simp_all add: ingest_category_keeps_covered)

lemma foldl_ingest_category_covers:
  "list_all (category_covered (foldl ingest_category acc cs)) cs"
proof (induction cs arbitrary: acc)
  case Nil
  show ?case by simp
next
  case (Cons x cs)
  have "category_covered (ingest_category acc x) x" by (rule ingest_category_covers)
  then have "category_covered (foldl ingest_category (ingest_category acc x) cs) x"
    by (rule foldl_ingest_category_keeps_covered)
  with Cons.IH [of "ingest_category acc x"] show ?case by simp
qed

lemma foldl_ingest_category_noop:
  "list_all (category_covered acc) cs \<Longrightarrow> foldl ingest_category acc cs = acc"
  by (induction cs) (simp_all add: ingest_category_covered_noop)

lemma mergeAreaInfo_self: "mergeAreaInfo s s = mergeAreaInfo s []"
proof -
  have "foldl ingest_category (foldl ingest_category [] s) s = foldl ingest_category [] s"
    by (rule foldl_ingest_category_noop) (rule foldl_ingest_category_covers)
  then show ?thesis by (simp add: mergeAreaInfo_def)
qed

text \<open>
  C9. Merging a detail snapshot with itself gives, field by field, what one normalisation
  of it (the merge with nothing) gives: for the string lists through
  \<^verbatim>\<open>mergeUniqueStrings\<close>, for the facility groups through \<^verbatim>\<open>mergeFacilityGroups\<close> and for
  the area information through \<^verbatim>\<open>mergeAreaInfo\<close>. The normalised string list is normal
  (trimmed texts, none empty, no two equal up to case) and normalising it again changes
  nothing; every group that is kept has a facility or a description, and every category
  that is kept has a point of interest.
\<close>

theorem merge_self_idempotent:
  "mergeUniqueStrings s s = mergeUniqueStrings s []
   \<and> mergeFacilityGroups g g = mergeFacilityGroups g []
   \<and> mergeAreaInfo a a = mergeAreaInfo a []
   \<and> normal (mergeUniqueStrings s [])
   \<and> mergeUniqueStrings (map Some (mergeUniqueStrings s [])) [] = mergeUniqueStrings s []
   \<and> list_all (\<lambda>x. fg_facilities x \<noteq> [] \<or> fg_description x \<noteq> []) (mergeFacilityGroups g [])
   \<and> list_all (\<lambda>c. cat_pois c \<noteq> []) (mergeAreaInfo a [])"
proof -
  have n: "normal (mergeUniqueStrings s [])" by (rule normal_mergeUniqueStrings)
  have "mergeUniqueStrings (map Some (mergeUniqueStrings s [])) (map Some []) = mergeUniqueStrings s []"
    using n by (rule mergeUniqueStrings_absorb) (simp_all add: normal_def)
  then have fixed: "mergeUniqueStrings (map Some (mergeUniqueStrings s [])) [] = mergeUniqueStrings s []"
    by simp
  have gs: "list_all (\<lambda>x. fg_facilities x \<noteq> [] \<or> fg_description x \<noteq> []) (mergeFacilityGroups g [])"
    by (simp add: mergeFacilityGroups_def list_all_iff)
  have cs: "list_all (\<lambda>c. cat_pois c \<noteq> []) (mergeAreaInfo a [])"
    by (simp add: mergeAreaInfo_def list_all_iff)
  from mergeUniqueStrings_self [of s] mergeFacilityGroups_self [of g] mergeAreaInfo_self [of a]
    n fixed gs cs
  show ?thesis by simp
qed

theorem merge_self_idempotent_witness:
  "mergeUniqueStrings example_facilities example_facilities = [''Free WiFi'', ''Pool'']
   \<and> mergeFacilityGroups example_groups example_groups
       = [\<lparr>fg_name = ''Bathroom'', fg_description = ''longer'',
            fg_facilities = [''Towels'', ''Soap'']\<rparr>]
   \<and> mergeAreaInfo example_area example_area
       = [\<lparr>cat_name = ''Nearby'',
            cat_pois = [\<lparr>poi_type = [], poi_name = ''Park'', poi_distance = ''1 km''\<rparr>]\<rparr>]"
proof -
  have a: "mergeUniqueStrings example_facilities [] = [''Free WiFi'', ''Pool'']"
    by code_simp
  have b: "mergeFacilityGroups example_groups []
       = [\<lparr>fg_name = ''Bathroom'', fg_description = ''longer'',
            fg_facilities = [''Towels'', ''Soap'']\<rparr>]"
    by code_simp
  have c: "mergeAreaInfo example_area []
       = [\<lparr>cat_name = ''Nearby'',
            cat_pois = [\<lparr>poi_type = [], poi_name = ''Park'', poi_distance = ''1 km''\<rparr>]\<rparr>]"
    by code_simp
  from merge_self_idempotent [of example_facilities example_groups example_area] a b c
  show ?thesis by simp
qed

end
